theory Spec2Isabelle
  imports Complex_Main "HOL-Library.Word"
begin

section \<open>Data model of core/blockchain.go\<close>

text \<open>
  A \<open>common.Hash\<close> is an opaque 32-byte identifier; the all-zero hash
  \<open>common.Hash{}\<close> is the value the store's readers return for a missing entry.
  Hashes and addresses are modelled as natural numbers, the zero hash as \<open>0\<close>.
\<close>

type_synonym hash = nat
type_synonym address = nat

definition zeroHash :: hash where
  "zeroHash = 0"

record header =
  h_hash :: hash
  h_parentHash :: hash
  h_number :: "64 word"
  h_difficulty :: int
  h_time :: int
  h_root :: hash
  h_nonce :: "64 word"

record transaction =
  tx_hash :: hash
  tx_nonce :: "64 word"
  tx_to :: "address option"

record body =
  bd_transactions :: "transaction list"
  bd_uncles :: "header list"

record block =
  b_header :: header
  b_transactions :: "transaction list"
  b_uncles :: "header list"

record log_entry =
  l_address :: address
  l_topics :: "hash list"
  l_data :: "nat list"
  l_blockNumber :: "64 word"
  l_blockHash :: hash
  l_txHash :: hash
  l_txIndex :: nat
  l_index :: nat

record receipt =
  r_cumulativeGasUsed :: int
  r_txHash :: hash
  r_contractAddress :: address
  r_gasUsed :: int
  r_logs :: "log_entry list"

definition BlockHash :: "block \<Rightarrow> hash" where
  "BlockHash b = h_hash (b_header b)"

definition ParentHash :: "block \<Rightarrow> hash" where
  "ParentHash b = h_parentHash (b_header b)"

definition NumberU64 :: "block \<Rightarrow> 64 word" where
  "NumberU64 b = h_number (b_header b)"

definition BlockDifficulty :: "block \<Rightarrow> int" where
  "BlockDifficulty b = h_difficulty (b_header b)"

definition BlockTime :: "block \<Rightarrow> int" where
  "BlockTime b = h_time (b_header b)"

definition BlockRoot :: "block \<Rightarrow> hash" where
  "BlockRoot b = h_root (b_header b)"

definition BlockBody :: "block \<Rightarrow> body" where
  "BlockBody b = \<lparr>bd_transactions = b_transactions b, bd_uncles = b_uncles b\<rparr>"

datatype error =
    ErrNoGenesis
  | errNilBlock
  | errNilHeader
  | ParentError hash
  | KnownBlockError
  | BlockFutureErr
  | BlockFutureTooFar int int
  | NonContiguous nat nat
  | BlockNonceErr hash "64 word" "64 word"
  | NumberZeroNotGenesis
  | InvalidOldChain
  | InvalidNewChain
  | HeaderUnknown "64 word" hash
  | NonExistentBlock hash
  | OtherError nat

text \<open>
  What a call does besides returning: a nil dereference or an out-of-range index panics,
  a \<open>Lock\<close> of a mutex the caller already holds and a receive on a channel nobody
  sends on never return, and a walk along parent links is given fuel.
\<close>

datatype 'a outcome = Return 'a | Panic | Blocked | OutOfFuel

datatype WriteStatus = NonStatTy | CanonStatTy | SplitStatTy | SideStatTy

datatype event =
    ChainEvent block hash "log_entry list"
  | ChainSideEvent block "log_entry list"
  | ChainSplitEvent block "log_entry list"
  | RemovedTransactionEvent "transaction list"
  | RemovedLogsEvent "log_entry list"

text \<open>A goroutine started with \<open>go\<close>: what it was asked to post.\<close>

datatype spawned =
    PostEvent event
  | PostSideEvents "event list"
  | PostChainEvents "event list" "log_entry list"

subsection \<open>The chain store\<close>

text \<open>
  Modelled from the spec: the typed store of core/database_util.go (section 4.A) is not
  among the sources. It is a set of tables over the key-value store: headers, bodies and
  total difficulties by hash, the canonical number-to-hash index, the three head
  pointers, block receipts by block hash, the per-transaction lookup index and receipts
  by transaction hash, and the bloom mip-map. A read of a missing hash yields the zero
  hash. Writes to the in-memory tables always succeed, so the branches of the source
  that handle a failed write (\<open>glog.Fatalf\<close>, \<open>return err\<close>) have no counterpart.
  \<open>stateRoots\<close> are the roots at which \<open>state.New\<close> succeeds.
\<close>

record chaindb =
  headers :: "hash \<rightharpoonup> header"
  bodies :: "hash \<rightharpoonup> body"
  tds :: "hash \<rightharpoonup> int"
  canonical :: "64 word \<rightharpoonup> hash"
  headBlockHash :: hash
  headHeaderHash :: hash
  headFastBlockHash :: hash
  blockReceipts :: "hash \<rightharpoonup> receipt list"
  txLookup :: "hash \<rightharpoonup> hash \<times> 64 word \<times> nat"
  txReceipts :: "hash \<rightharpoonup> receipt"
  mipmapBloom :: "64 word \<rightharpoonup> receipt list"
  stateRoots :: "hash set"

text \<open>
  The \<open>BlockChain\<close> struct: the store, the header chain's two pointers, the block
  pointers, the future-blocks LRU (most recent first), the interrupt flag, the mutex
  \<open>mu\<close>, the root of the state scratchpad and the goroutines started so far. The
  read-through caches for headers, bodies, blocks and total difficulties are purged
  wherever the store deletes, so a lookup is a lookup in the store. \<open>chainmu\<close>,
  \<open>procmu\<close> and the wait group are never re-entered by one caller and are left out.
\<close>

record blockchain = chaindb +
  genesisBlock :: block
  hc_genesisHeader :: header
  hc_currentHeader :: header
  currentBlock :: "block option"
  currentFastBlock :: "block option"
  futureBlocks :: "(hash \<times> block) list"
  procInterrupt :: bool
  mu :: bool
  stateCache :: "hash option"
  goroutines :: "spawned list"

definition GetHeader :: "'a chaindb_scheme \<Rightarrow> hash \<Rightarrow> header option" where
  "GetHeader s h = headers s h"

definition HasHeader :: "'a chaindb_scheme \<Rightarrow> hash \<Rightarrow> bool" where
  "HasHeader s h = (GetHeader s h \<noteq> None)"

definition GetBody :: "'a chaindb_scheme \<Rightarrow> hash \<Rightarrow> body option" where
  "GetBody s h = bodies s h"

definition GetBlock :: "'a chaindb_scheme \<Rightarrow> hash \<Rightarrow> block option" where
  "GetBlock s h =
     (case GetHeader s h of
        None \<Rightarrow> None
      | Some hdr \<Rightarrow>
          (case GetBody s h of
             None \<Rightarrow> None
           | Some bd \<Rightarrow>
               Some \<lparr>b_header = hdr, b_transactions = bd_transactions bd,
                     b_uncles = bd_uncles bd\<rparr>))"

definition HasBlock :: "'a chaindb_scheme \<Rightarrow> hash \<Rightarrow> bool" where
  "HasBlock s h = (GetBlock s h \<noteq> None)"

definition GetCanonicalHash :: "'a chaindb_scheme \<Rightarrow> 64 word \<Rightarrow> hash" where
  "GetCanonicalHash s n = (case canonical s n of None \<Rightarrow> zeroHash | Some h \<Rightarrow> h)"

definition GetBlockByNumber :: "'a chaindb_scheme \<Rightarrow> 64 word \<Rightarrow> block option" where
  "GetBlockByNumber s n =
     (let h = GetCanonicalHash s n in if h = zeroHash then None else GetBlock s h)"

definition GetTd :: "'a chaindb_scheme \<Rightarrow> hash \<Rightarrow> int option" where
  "GetTd s h = tds s h"

definition WriteTd :: "hash \<Rightarrow> int \<Rightarrow> 'a chaindb_scheme \<Rightarrow> 'a chaindb_scheme" where
  "WriteTd h td s = s\<lparr>tds := (tds s)(h \<mapsto> td)\<rparr>"

definition WriteBody :: "hash \<Rightarrow> body \<Rightarrow> 'a chaindb_scheme \<Rightarrow> 'a chaindb_scheme" where
  "WriteBody h bd s = s\<lparr>bodies := (bodies s)(h \<mapsto> bd)\<rparr>"

definition WriteHeader :: "header \<Rightarrow> 'a chaindb_scheme \<Rightarrow> 'a chaindb_scheme" where
  "WriteHeader hdr s = s\<lparr>headers := (headers s)(h_hash hdr \<mapsto> hdr)\<rparr>"

definition db_WriteBlock :: "block \<Rightarrow> 'a chaindb_scheme \<Rightarrow> 'a chaindb_scheme" where
  "db_WriteBlock b s = WriteHeader (b_header b) (WriteBody (BlockHash b) (BlockBody b) s)"

definition DeleteBody :: "hash \<Rightarrow> 'a chaindb_scheme \<Rightarrow> 'a chaindb_scheme" where
  "DeleteBody h s = s\<lparr>bodies := (bodies s)(h := None)\<rparr>"

definition WriteCanonicalHash ::
  "hash \<Rightarrow> 64 word \<Rightarrow> 'a chaindb_scheme \<Rightarrow> 'a chaindb_scheme" where
  "WriteCanonicalHash h n s = s\<lparr>canonical := (canonical s)(n \<mapsto> h)\<rparr>"

definition WriteHeadBlockHash :: "hash \<Rightarrow> 'a chaindb_scheme \<Rightarrow> 'a chaindb_scheme" where
  "WriteHeadBlockHash h s = s\<lparr>headBlockHash := h\<rparr>"

definition WriteHeadHeaderHash :: "hash \<Rightarrow> 'a chaindb_scheme \<Rightarrow> 'a chaindb_scheme" where
  "WriteHeadHeaderHash h s = s\<lparr>headHeaderHash := h\<rparr>"

definition WriteHeadFastBlockHash :: "hash \<Rightarrow> 'a chaindb_scheme \<Rightarrow> 'a chaindb_scheme" where
  "WriteHeadFastBlockHash h s = s\<lparr>headFastBlockHash := h\<rparr>"

definition GetBlockReceipts :: "'a chaindb_scheme \<Rightarrow> hash \<Rightarrow> receipt list" where
  "GetBlockReceipts s h = (case blockReceipts s h of None \<Rightarrow> [] | Some rs \<Rightarrow> rs)"

definition WriteBlockReceipts ::
  "hash \<Rightarrow> receipt list \<Rightarrow> 'a chaindb_scheme \<Rightarrow> 'a chaindb_scheme" where
  "WriteBlockReceipts h rs s = s\<lparr>blockReceipts := (blockReceipts s)(h \<mapsto> rs)\<rparr>"

fun writeTxEntries ::
  "hash \<Rightarrow> 64 word \<Rightarrow> nat \<Rightarrow> transaction list \<Rightarrow>
   (hash \<rightharpoonup> hash \<times> 64 word \<times> nat) \<Rightarrow> (hash \<rightharpoonup> hash \<times> 64 word \<times> nat)" where
  "writeTxEntries bh n i [] m = m"
| "writeTxEntries bh n i (t # ts) m =
     writeTxEntries bh n (Suc i) ts (m(tx_hash t \<mapsto> (bh, n, i)))"

definition WriteTransactions :: "block \<Rightarrow> 'a chaindb_scheme \<Rightarrow> 'a chaindb_scheme" where
  "WriteTransactions b s =
     s\<lparr>txLookup := writeTxEntries (BlockHash b) (NumberU64 b) 0 (b_transactions b) (txLookup s)\<rparr>"

fun writeReceiptEntries ::
  "receipt list \<Rightarrow> (hash \<rightharpoonup> receipt) \<Rightarrow> (hash \<rightharpoonup> receipt)" where
  "writeReceiptEntries [] m = m"
| "writeReceiptEntries (r # rs) m = writeReceiptEntries rs (m(r_txHash r \<mapsto> r))"

definition WriteReceipts :: "receipt list \<Rightarrow> 'a chaindb_scheme \<Rightarrow> 'a chaindb_scheme" where
  "WriteReceipts rs s = s\<lparr>txReceipts := writeReceiptEntries rs (txReceipts s)\<rparr>"

definition WriteMipmapBloom ::
  "64 word \<Rightarrow> receipt list \<Rightarrow> 'a chaindb_scheme \<Rightarrow> 'a chaindb_scheme" where
  "WriteMipmapBloom n rs s = s\<lparr>mipmapBloom := (mipmapBloom s)(n \<mapsto> rs)\<rparr>"

definition DeleteReceipt :: "hash \<Rightarrow> 'a chaindb_scheme \<Rightarrow> 'a chaindb_scheme" where
  "DeleteReceipt h s = s\<lparr>txReceipts := (txReceipts s)(h := None)\<rparr>"

definition DeleteTransaction :: "hash \<Rightarrow> 'a chaindb_scheme \<Rightarrow> 'a chaindb_scheme" where
  "DeleteTransaction h s = s\<lparr>txLookup := (txLookup s)(h := None)\<rparr>"

definition stateNew :: "'a chaindb_scheme \<Rightarrow> hash \<Rightarrow> bool" where
  "stateNew s rt = (rt \<in> stateRoots s)"

text \<open>
  Modelled from the spec: \<open>types.TxDifference\<close> (core/types) is not among the
  sources; section 4.D has \<open>diff = deletedTxs - addedTxs\<close>, by transaction hash.
\<close>

definition TxDifference :: "transaction list \<Rightarrow> transaction list \<Rightarrow> transaction list" where
  "TxDifference a b = filter (\<lambda>t. tx_hash t \<notin> tx_hash ` set b) a"

subsection \<open>The header chain's pointer\<close>

text \<open>
  Modelled from the spec: core/headerchain.go is not among the sources. Section 2 has the
  header chain hold the in-memory pointer to the current header, section 3 has
  \<open>HeadHeader\<close> persisted in the store; setting the current header updates both.
\<close>

definition SetCurrentHeader :: "header \<Rightarrow> blockchain \<Rightarrow> blockchain" where
  "SetCurrentHeader hdr s = (WriteHeadHeaderHash (h_hash hdr) s)\<lparr>hc_currentHeader := hdr\<rparr>"

subsection \<open>The future-blocks LRU\<close>

text \<open>
  \<open>lru.Cache\<close> of hashicorp/golang-lru with \<open>maxFutureBlocks\<close> entries, most
  recently used first: \<open>Add\<close> moves an existing key to the front and otherwise evicts
  the oldest entry when the cache is full; \<open>Contains\<close> does not touch the order.
\<close>

definition maxFutureBlocks :: nat where
  "maxFutureBlocks = 256"

definition maxTimeFutureBlocks :: "64 word" where
  "maxTimeFutureBlocks = 30"

definition lruAdd :: "nat \<Rightarrow> hash \<Rightarrow> 'v \<Rightarrow> (hash \<times> 'v) list \<Rightarrow> (hash \<times> 'v) list" where
  "lruAdd cap k v c =
     (if k \<in> fst ` set c then (k, v) # filter (\<lambda>e. fst e \<noteq> k) c
      else take cap ((k, v) # c))"

definition lruContains :: "hash \<Rightarrow> (hash \<times> 'v) list \<Rightarrow> bool" where
  "lruContains k c = (k \<in> fst ` set c)"

definition lruRemove :: "hash \<Rightarrow> (hash \<times> 'v) list \<Rightarrow> (hash \<times> 'v) list" where
  "lruRemove k c = filter (\<lambda>e. fst e \<noteq> k) c"

section \<open>insert\<close>

definition insertBlock :: "block \<Rightarrow> blockchain \<Rightarrow> blockchain" where
  "insertBlock b s =
     (let updateHeads = (GetCanonicalHash s (NumberU64 b) \<noteq> BlockHash b);
          s1 = WriteCanonicalHash (BlockHash b) (NumberU64 b) s;
          s2 = WriteHeadBlockHash (BlockHash b) s1;
          s3 = s2\<lparr>currentBlock := Some b\<rparr>
      in if updateHeads
         then (WriteHeadFastBlockHash (BlockHash b) (SetCurrentHeader (b_header b) s3))
                \<lparr>currentFastBlock := Some b\<rparr>
         else s3)"

section \<open>The collaborators\<close>

text \<open>
  The validator, the processor, the state database, the signer, the proof-of-work
  verifier, the clock and the random source are interfaces to the chain manager. They are
  parameters: \<open>Process\<close> yields the receipts, the logs, the gas used and the root of the
  scratchpad after the block; \<open>stateCommit\<close> yields the root it wrote;
  \<open>verifyNonces\<close> is the sequence of results the nonce verifier delivers on its
  channel; \<open>unixNow i\<close> and \<open>float64Draw i\<close> are the clock and the draw read while
  block \<open>i\<close> of a batch is handled.

  \<open>WriteBlockReceipts\<close>, \<open>WriteTransactions\<close>, \<open>WriteReceipts\<close> and
  \<open>WriteMipmapBloom\<close> (core/database_util.go) hand on the error of the underlying
  store, and \<open>reorg\<close> and \<open>InsertChain\<close> return it. Whether such a write fails
  is a parameter: \<open>WriteBlockReceiptsErr\<close>, \<open>WriteTransactionsErr\<close>,
  \<open>WriteReceiptsErr\<close> and \<open>WriteMipmapBloomErr\<close>, read in the state the write
  would start from. A write that fails is taken to leave the store as it was (section
  4.A of the specification has the store apply a batch atomically). Where the source
  answers a failed write with \<open>glog.Fatal\<close> the process ends, and the write is taken
  to succeed.

  \<open>NewHeaderChain\<close> (core/headerchain.go) is handed the store before the genesis
  block is looked up: it yields the header chain's genesis and current header or an
  error, and the store as it leaves it.

  \<open>SameHeaderPointer x g\<close> is the outcome of comparing the pointers that
  \<open>x.Header()\<close> and, later, \<open>g.Header()\<close> return (\<open>types.Block.Header\<close> is in
  core/types): it is read when the head header of \<open>loadLastState\<close> is the head
  block's own.
\<close>

record env =
  HeaderCheck :: "header \<Rightarrow> error option"
  ValidateHeader :: "blockchain \<Rightarrow> header \<Rightarrow> header \<Rightarrow> error option"
  ValidateBlock :: "blockchain \<Rightarrow> block \<Rightarrow> error option"
  ValidateState :: "blockchain \<Rightarrow> block \<Rightarrow> block option \<Rightarrow> receipt list \<Rightarrow> int \<Rightarrow> error option"
  Process :: "blockchain \<Rightarrow> block \<Rightarrow> error + receipt list \<times> log_entry list \<times> int \<times> hash"
  stateReset :: "blockchain \<Rightarrow> hash \<Rightarrow> error option"
  stateCommit :: "blockchain \<Rightarrow> error + hash"
  Sender :: "64 word \<Rightarrow> transaction \<Rightarrow> address"
  MessageCreatesContract :: "transaction \<Rightarrow> bool"
  CreateAddress :: "address \<Rightarrow> 64 word \<Rightarrow> address"
  verifyNonces :: "block list \<Rightarrow> (nat \<times> bool) list"
  unixNow :: "nat \<Rightarrow> 64 word"
  float64Draw :: "nat \<Rightarrow> real"
  NewHeaderChain :: "chaindb \<Rightarrow> (error + header \<times> header) \<times> chaindb"
  WriteBlockReceiptsErr :: "blockchain \<Rightarrow> hash \<Rightarrow> receipt list \<Rightarrow> error option"
  WriteTransactionsErr :: "blockchain \<Rightarrow> block \<Rightarrow> error option"
  WriteReceiptsErr :: "blockchain \<Rightarrow> receipt list \<Rightarrow> error option"
  WriteMipmapBloomErr :: "blockchain \<Rightarrow> 64 word \<Rightarrow> receipt list \<Rightarrow> error option"
  SameHeaderPointer :: "block \<Rightarrow> block \<Rightarrow> bool"
  BadHashes :: "(hash \<times> 64 word) list"

section \<open>reorg\<close>

text \<open>
  The accumulators of \<open>reorg\<close>. \<open>append\<close> adds at the end, so \<open>newChain\<close>
  starts with the new block and ends just above the common ancestor.
\<close>

record reorg_acc =
  newChain :: "block list"
  oldChain :: "block list"
  deletedTxs :: "transaction list"
  deletedLogs :: "log_entry list"
  deletedLogsByHash :: "hash \<rightharpoonup> log_entry list"

definition emptyAcc :: reorg_acc where
  "emptyAcc = \<lparr>newChain = [], oldChain = [], deletedTxs = [], deletedLogs = [],
               deletedLogsByHash = Map.empty\<rparr>"

fun collectReceiptLogs :: "hash \<Rightarrow> receipt list \<Rightarrow> reorg_acc \<Rightarrow> reorg_acc" where
  "collectReceiptLogs h [] acc = acc"
| "collectReceiptLogs h (r # rs) acc =
     collectReceiptLogs h rs
       (acc\<lparr>deletedLogs := deletedLogs acc @ r_logs r,
            deletedLogsByHash := (deletedLogsByHash acc)(h \<mapsto> r_logs r)\<rparr>)"

definition collectLogs :: "'a chaindb_scheme \<Rightarrow> hash \<Rightarrow> reorg_acc \<Rightarrow> reorg_acc" where
  "collectLogs s h acc = collectReceiptLogs h (GetBlockReceipts s h) acc"

definition dropOld :: "'a chaindb_scheme \<Rightarrow> block \<Rightarrow> reorg_acc \<Rightarrow> reorg_acc" where
  "dropOld s ob acc =
     collectLogs s (BlockHash ob)
       (acc\<lparr>oldChain := oldChain acc @ [ob],
            deletedTxs := deletedTxs acc @ b_transactions ob\<rparr>)"

text \<open>The first loop when the old block is higher: walk the old chain down.\<close>

fun reduceOld ::
  "nat \<Rightarrow> 'a chaindb_scheme \<Rightarrow> block option \<Rightarrow> block \<Rightarrow> reorg_acc \<Rightarrow>
   (block option \<times> reorg_acc) outcome" where
  "reduceOld 0 s ob nb acc = OutOfFuel"
| "reduceOld (Suc k) s None nb acc = Return (None, acc)"
| "reduceOld (Suc k) s (Some ob) nb acc =
     (if NumberU64 ob \<noteq> NumberU64 nb
      then reduceOld k s (GetBlock s (ParentHash ob)) nb (dropOld s ob acc)
      else Return (Some ob, acc))"

text \<open>The first loop otherwise: walk the new chain down, keeping its blocks.\<close>

fun reduceNew ::
  "nat \<Rightarrow> 'a chaindb_scheme \<Rightarrow> block \<Rightarrow> block option \<Rightarrow> reorg_acc \<Rightarrow>
   (block option \<times> reorg_acc) outcome" where
  "reduceNew 0 s ob nb acc = OutOfFuel"
| "reduceNew (Suc k) s ob None acc = Return (None, acc)"
| "reduceNew (Suc k) s ob (Some nb) acc =
     (if NumberU64 nb \<noteq> NumberU64 ob
      then reduceNew k s ob (GetBlock s (ParentHash nb)) (acc\<lparr>newChain := newChain acc @ [nb]\<rparr>)
      else Return (Some nb, acc))"

text \<open>The second loop: both sides in lockstep until the hashes agree.\<close>

fun findCommon ::
  "nat \<Rightarrow> 'a chaindb_scheme \<Rightarrow> block \<Rightarrow> block \<Rightarrow> reorg_acc \<Rightarrow>
   (error + block \<times> reorg_acc) outcome" where
  "findCommon 0 s ob nb acc = OutOfFuel"
| "findCommon (Suc k) s ob nb acc =
     (if BlockHash ob = BlockHash nb then Return (Inr (ob, acc))
      else
        (let acc' = dropOld s ob (acc\<lparr>newChain := newChain acc @ [nb]\<rparr>)
         in case GetBlock s (ParentHash ob) of
              None \<Rightarrow> Return (Inl InvalidOldChain)
            | Some ob' \<Rightarrow>
                (case GetBlock s (ParentHash nb) of
                   None \<Rightarrow> Return (Inl InvalidNewChain)
                 | Some nb' \<Rightarrow> findCommon k s ob' nb' acc')))"

text \<open>
  The body of the insertion loop over \<open>newChain\<close>, and the loop: \<open>insert\<close>
  has written when one of the three writes after it fails, and \<open>reorg\<close> returns that
  error at once.
\<close>

definition reinsert :: "env \<Rightarrow> block \<Rightarrow> blockchain \<Rightarrow> error option \<times> blockchain" where
  "reinsert env b s =
     (let s1 = insertBlock b s in
      case WriteTransactionsErr env s1 b of
        Some e \<Rightarrow> (Some e, s1)
      | None \<Rightarrow>
          (let s2 = WriteTransactions b s1;
               receipts = GetBlockReceipts s2 (BlockHash b) in
           case WriteReceiptsErr env s2 receipts of
             Some e \<Rightarrow> (Some e, s2)
           | None \<Rightarrow>
               (let s3 = WriteReceipts receipts s2 in
                case WriteMipmapBloomErr env s3 (NumberU64 b) receipts of
                  Some e \<Rightarrow> (Some e, s3)
                | None \<Rightarrow> (None, WriteMipmapBloom (NumberU64 b) receipts s3))))"

fun reinsertAll :: "env \<Rightarrow> block list \<Rightarrow> blockchain \<Rightarrow> error option \<times> blockchain" where
  "reinsertAll env [] s = (None, s)"
| "reinsertAll env (b # bs) s =
     (case reinsert env b s of
        (Some e, s1) \<Rightarrow> (Some e, s1)
      | (None, s1) \<Rightarrow> reinsertAll env bs s1)"

fun deleteTxs :: "transaction list \<Rightarrow> blockchain \<Rightarrow> blockchain" where
  "deleteTxs [] s = s"
| "deleteTxs (t # ts) s = deleteTxs ts (DeleteTransaction (tx_hash t) (DeleteReceipt (tx_hash t) s))"

definition spawn :: "spawned \<Rightarrow> blockchain \<Rightarrow> blockchain" where
  "spawn g s = s\<lparr>goroutines := goroutines s @ [g]\<rparr>"

definition reorgApply :: "env \<Rightarrow> reorg_acc \<Rightarrow> blockchain \<Rightarrow> error option \<times> blockchain" where
  "reorgApply env acc s =
     (case reinsertAll env (newChain acc) s of
        (Some e, s1) \<Rightarrow> (Some e, s1)
      | (None, s1) \<Rightarrow>
          (let addedTxs = concat (map b_transactions (newChain acc));
               diff = TxDifference (deletedTxs acc) addedTxs;
               s2 = deleteTxs diff s1;
               s3 = (if diff \<noteq> [] then spawn (PostEvent (RemovedTransactionEvent diff)) s2
                     else s2);
               s4 = (if deletedLogs acc \<noteq> []
                     then spawn (PostEvent (RemovedLogsEvent (deletedLogs acc))) s3 else s3)
           in (None,
               if oldChain acc \<noteq> []
               then spawn (PostSideEvents
                      (map (\<lambda>b. ChainSideEvent b
                             (case deletedLogsByHash acc (BlockHash b) of
                                None \<Rightarrow> [] | Some ls \<Rightarrow> ls))
                         (oldChain acc))) s4
               else s4)))"

definition reorgWalk ::
  "nat \<Rightarrow> 'a chaindb_scheme \<Rightarrow> block \<Rightarrow> block \<Rightarrow> (error + block \<times> reorg_acc) outcome" where
  "reorgWalk fuel s oldBlock newBlock =
     (case (if NumberU64 oldBlock > NumberU64 newBlock
            then (case reduceOld fuel s (Some oldBlock) newBlock emptyAcc of
                    Return (ob, acc) \<Rightarrow> Return (ob, Some newBlock, acc)
                  | Panic \<Rightarrow> Panic | Blocked \<Rightarrow> Blocked | OutOfFuel \<Rightarrow> OutOfFuel)
            else (case reduceNew fuel s oldBlock (Some newBlock) emptyAcc of
                    Return (nb, acc) \<Rightarrow> Return (Some oldBlock, nb, acc)
                  | Panic \<Rightarrow> Panic | Blocked \<Rightarrow> Blocked | OutOfFuel \<Rightarrow> OutOfFuel)) of
        Return (None, nb, acc) \<Rightarrow> Return (Inl InvalidOldChain)
      | Return (Some ob, None, acc) \<Rightarrow> Return (Inl InvalidNewChain)
      | Return (Some ob, Some nb, acc) \<Rightarrow> findCommon fuel s ob nb acc
      | Panic \<Rightarrow> Panic | Blocked \<Rightarrow> Blocked | OutOfFuel \<Rightarrow> OutOfFuel)"

definition reorg ::
  "env \<Rightarrow> nat \<Rightarrow> blockchain \<Rightarrow> block \<Rightarrow> block \<Rightarrow> (error option \<times> blockchain) outcome" where
  "reorg env fuel s oldBlock newBlock =
     (case reorgWalk fuel s oldBlock newBlock of
        Return (Inl e) \<Rightarrow> Return (Some e, s)
      | Return (Inr (commonBlock, acc)) \<Rightarrow> Return (reorgApply env acc s)
      | Panic \<Rightarrow> Panic | Blocked \<Rightarrow> Blocked | OutOfFuel \<Rightarrow> OutOfFuel)"

section \<open>WriteBlock\<close>

text \<open>
  \<open>r\<close> is the value \<open>mrand.Float64()\<close> returns when the tie is reached; a
  \<open>float64\<close> in \<open>[0, 1)\<close> is a rational, so the comparison with 0.5 is exact.
  \<open>externTd.Cmp(localTd)\<close> dereferences \<open>localTd\<close>: a head block without a
  stored total difficulty panics.
\<close>

definition writeBlockData :: "block \<Rightarrow> int \<Rightarrow> blockchain \<Rightarrow> blockchain" where
  "writeBlockData b externTd s =
     (let s1 = WriteTd (BlockHash b) externTd s;
          s2 = db_WriteBlock b s1
      in s2\<lparr>futureBlocks := lruRemove (BlockHash b) (futureBlocks s2)\<rparr>)"

definition WriteBlock ::
  "env \<Rightarrow> nat \<Rightarrow> real \<Rightarrow> blockchain \<Rightarrow> block \<Rightarrow>
   (WriteStatus \<times> error option \<times> blockchain) outcome" where
  "WriteBlock env fuel r s b =
     (case GetTd s (ParentHash b) of
        None \<Rightarrow> Return (NonStatTy, Some (ParentError (ParentHash b)), s)
      | Some ptd \<Rightarrow>
          if mu s then Blocked
          else
            (case currentBlock s of
               None \<Rightarrow> Panic
             | Some cur \<Rightarrow>
                 (case GetTd s (BlockHash cur) of
                    None \<Rightarrow> Panic
                  | Some localTd \<Rightarrow>
                      (let externTd = BlockDifficulty b + ptd in
                       if externTd > localTd \<or> (externTd = localTd \<and> r < 0.5)
                       then
                         (if ParentHash b \<noteq> BlockHash cur
                          then
                            (case reorg env fuel s cur b of
                               Return (Some e, s') \<Rightarrow> Return (NonStatTy, Some e, s')
                             | Return (None, s') \<Rightarrow>
                                 Return (CanonStatTy, None,
                                   writeBlockData b externTd (insertBlock b s'))
                             | Panic \<Rightarrow> Panic | Blocked \<Rightarrow> Blocked | OutOfFuel \<Rightarrow> OutOfFuel)
                          else Return (CanonStatTy, None,
                                 writeBlockData b externTd (insertBlock b s)))
                       else Return (SideStatTy, None, writeBlockData b externTd s)))))"

section \<open>Rollback\<close>

text \<open>
  One pass of the loop body for the hash \<open>h\<close>. \<open>GetHeader\<close> and \<open>GetBlock\<close>
  return nil for a missing parent; the header chain then has no hash to persist and the
  block pointers are dereferenced on the next line, so a missing parent panics.
\<close>

definition rollbackHeader :: "hash \<Rightarrow> blockchain \<Rightarrow> blockchain outcome" where
  "rollbackHeader h s =
     (if h_hash (hc_currentHeader s) = h
      then (case GetHeader s (h_parentHash (hc_currentHeader s)) of
              None \<Rightarrow> Panic
            | Some p \<Rightarrow> Return (SetCurrentHeader p s))
      else Return s)"

definition rollbackFast :: "hash \<Rightarrow> blockchain \<Rightarrow> blockchain outcome" where
  "rollbackFast h s =
     (case currentFastBlock s of
        None \<Rightarrow> Panic
      | Some fb \<Rightarrow>
          if BlockHash fb = h
          then (case GetBlock s (ParentHash fb) of
                  None \<Rightarrow> Panic
                | Some p \<Rightarrow>
                    Return (WriteHeadFastBlockHash (BlockHash p) (s\<lparr>currentFastBlock := Some p\<rparr>)))
          else Return s)"

definition rollbackBlock :: "hash \<Rightarrow> blockchain \<Rightarrow> blockchain outcome" where
  "rollbackBlock h s =
     (case currentBlock s of
        None \<Rightarrow> Panic
      | Some cb \<Rightarrow>
          if BlockHash cb = h
          then (case GetBlock s (ParentHash cb) of
                  None \<Rightarrow> Panic
                | Some p \<Rightarrow>
                    Return (WriteHeadBlockHash (BlockHash p) (s\<lparr>currentBlock := Some p\<rparr>)))
          else Return s)"

definition andThen :: "'a outcome \<Rightarrow> ('a \<Rightarrow> 'b outcome) \<Rightarrow> 'b outcome" where
  "andThen x f =
     (case x of Return a \<Rightarrow> f a | Panic \<Rightarrow> Panic | Blocked \<Rightarrow> Blocked | OutOfFuel \<Rightarrow> OutOfFuel)"

definition rollbackOne :: "hash \<Rightarrow> blockchain \<Rightarrow> blockchain outcome" where
  "rollbackOne h s = andThen (andThen (rollbackHeader h s) (rollbackFast h)) (rollbackBlock h)"

text \<open>\<open>for i := len(chain) - 1; i >= 0; i--\<close>: the counter is \<open>i + 1\<close>.\<close>

fun rollbackLoop :: "hash list \<Rightarrow> nat \<Rightarrow> blockchain \<Rightarrow> blockchain outcome" where
  "rollbackLoop chain 0 s = Return s"
| "rollbackLoop chain (Suc i) s =
     (if i < length chain
      then andThen (rollbackOne (chain ! i) s) (rollbackLoop chain i)
      else Panic)"

definition Rollback :: "blockchain \<Rightarrow> hash list \<Rightarrow> blockchain outcome" where
  "Rollback s chain = (if mu s then Blocked else rollbackLoop chain (length chain) s)"

section \<open>Errors the validator reports\<close>

definition IsKnownBlockErr :: "error \<Rightarrow> bool" where
  "IsKnownBlockErr e = (e = KnownBlockError)"

definition IsParentErr :: "error \<Rightarrow> bool" where
  "IsParentErr e = (case e of ParentError h \<Rightarrow> True | _ \<Rightarrow> False)"

section \<open>InsertReceiptChain\<close>

fun stampLogs ::
  "block \<Rightarrow> hash \<Rightarrow> nat \<Rightarrow> nat \<Rightarrow> log_entry list \<Rightarrow> log_entry list" where
  "stampLogs b th j logIndex [] = []"
| "stampLogs b th j logIndex (l # ls) =
     l\<lparr>l_blockNumber := NumberU64 b, l_blockHash := BlockHash b, l_txHash := th,
       l_txIndex := j, l_index := logIndex\<rparr>
     # stampLogs b th j (Suc logIndex) ls"

text \<open>
  The loop over \<open>receipts\<close>: \<open>j\<close> is the index, \<open>prev\<close> the cumulative gas of
  receipt \<open>j - 1\<close>, \<open>logIndex\<close> the running log counter. \<open>transactions[j]\<close> is out
  of range when the block has fewer transactions than receipts.
\<close>

fun deriveReceipts ::
  "env \<Rightarrow> block \<Rightarrow> nat \<Rightarrow> int \<Rightarrow> nat \<Rightarrow> receipt list \<Rightarrow> receipt list outcome" where
  "deriveReceipts env b j prev logIndex [] = Return []"
| "deriveReceipts env b j prev logIndex (r # rs) =
     (if j < length (b_transactions b)
      then
        (let tx = b_transactions b ! j;
             from = Sender env (NumberU64 b) tx;
             r1 = r\<lparr>r_txHash := tx_hash tx\<rparr>;
             r2 = (if MessageCreatesContract env tx
                   then r1\<lparr>r_contractAddress := CreateAddress env from (tx_nonce tx)\<rparr>
                   else r1);
             r3 = r2\<lparr>r_gasUsed := (if j = 0 then r_cumulativeGasUsed r
                                    else r_cumulativeGasUsed r - prev)\<rparr>;
             r4 = r3\<lparr>r_logs := stampLogs b (tx_hash tx) j logIndex (r_logs r)\<rparr>
         in andThen
              (deriveReceipts env b (Suc j) (r_cumulativeGasUsed r)
                 (logIndex + length (r_logs r)) rs)
              (\<lambda>rs'. Return (r4 # rs')))
      else Panic)"

datatype task_result =
    TaskStopped
  | TaskFailed error
  | TaskIgnored
  | TaskProcessed blockchain

text \<open>The body of a worker's loop for one index of the task queue.\<close>

definition receiptTask ::
  "env \<Rightarrow> blockchain \<Rightarrow> block \<Rightarrow> receipt list \<Rightarrow> task_result outcome" where
  "receiptTask env s b receipts =
     (if procInterrupt s then Return TaskStopped
      else if \<not> HasHeader s (BlockHash b)
      then Return (TaskFailed (HeaderUnknown (NumberU64 b) (BlockHash b)))
      else if HasBlock s (BlockHash b) then Return TaskIgnored
      else andThen (deriveReceipts env b 0 0 0 receipts)
             (\<lambda>rs. Return (TaskProcessed
                (WriteReceipts rs
                  (WriteTransactions b
                    (WriteMipmapBloom (NumberU64 b) rs
                      (WriteBlockReceipts (BlockHash b) rs
                        (WriteBody (BlockHash b) (BlockBody b) s))))))))"

record receipt_stats =
  rs_processed :: nat
  rs_ignored :: nat

text \<open>
  The worker pool, run as one worker that takes the indices in order: a worker that is
  interrupted or has failed returns, and the others return at their next index. The
  result is the state, the statistics and the first failure with its index.
\<close>

fun runTasks ::
  "env \<Rightarrow> nat \<Rightarrow> (block \<times> receipt list) list \<Rightarrow> blockchain \<Rightarrow> receipt_stats \<Rightarrow>
   (blockchain \<times> receipt_stats \<times> (nat \<times> error) option) outcome" where
  "runTasks env i [] s st = Return (s, st, None)"
| "runTasks env i ((b, receipts) # rest) s st =
     andThen (receiptTask env s b receipts)
       (\<lambda>t. case t of
           TaskStopped \<Rightarrow> Return (s, st, None)
         | TaskFailed e \<Rightarrow> Return (s, st, Some (i, e))
         | TaskIgnored \<Rightarrow> runTasks env (Suc i) rest s (st\<lparr>rs_ignored := Suc (rs_ignored st)\<rparr>)
         | TaskProcessed s' \<Rightarrow>
             runTasks env (Suc i) rest s' (st\<lparr>rs_processed := Suc (rs_processed st)\<rparr>))"

definition updateFastHead :: "block \<Rightarrow> blockchain \<Rightarrow> blockchain outcome" where
  "updateFastHead head s =
     (case currentFastBlock s of
        None \<Rightarrow> Panic
      | Some fb \<Rightarrow>
          (case GetTd s (BlockHash fb) of
             None \<Rightarrow> Panic
           | Some fastTd \<Rightarrow>
               (case GetTd s (BlockHash head) of
                  None \<Rightarrow> Panic
                | Some headTd \<Rightarrow>
                    if fastTd < headTd
                    then Return (WriteHeadFastBlockHash (BlockHash head)
                                   (s\<lparr>currentFastBlock := Some head\<rparr>))
                    else Return s)))"

definition InsertReceiptChain ::
  "env \<Rightarrow> blockchain \<Rightarrow> block list \<Rightarrow> receipt list list \<Rightarrow>
   (nat \<times> error option \<times> blockchain) outcome" where
  "InsertReceiptChain env s blockChain receiptChain =
     andThen (runTasks env 0 (zip blockChain receiptChain) s \<lparr>rs_processed = 0, rs_ignored = 0\<rparr>)
       (\<lambda>(s1, st, failed).
          case failed of
            Some (i, e) \<Rightarrow> Return (i, Some e, s1)
          | None \<Rightarrow>
              if procInterrupt s1 then Return (0, None, s1)
              else if mu s1 then Blocked
              else if min (length blockChain) (length receiptChain) = 0 then Panic
              else andThen
                     (updateFastHead
                        (blockChain ! (min (length blockChain) (length receiptChain) - 1)) s1)
                     (\<lambda>s2. Return (0, None, s2)))"

section \<open>InsertChain\<close>

text \<open>The sanity check before the lock: the first index that breaks the chain.\<close>

fun checkContiguous :: "nat \<Rightarrow> block list \<Rightarrow> nat option" where
  "checkContiguous i (p # b # rest) =
     (if NumberU64 b \<noteq> NumberU64 p + 1 \<or> ParentHash b \<noteq> BlockHash p
      then Some i
      else checkContiguous (Suc i) (b # rest))"
| "checkContiguous i [p] = None"
| "checkContiguous i [] = None"

record insert_stats =
  st_queued :: nat
  st_processed :: nat
  st_ignored :: nat

record insert_locals =
  stats :: insert_stats
  events :: "event list"
  coalescedLogs :: "log_entry list"
  txcount :: nat
  nonceChecked :: "bool list"
  nonceResults :: "(nat \<times> bool) list"

text \<open>
  \<open>for !nonceChecked[i]\<close>: results are taken off the channel until the one for block
  \<open>i\<close> has come; an invalid one ends the batch with its own index. A channel that
  delivers nothing more blocks the receive.
\<close>

fun awaitNonce ::
  "nat \<Rightarrow> bool list \<Rightarrow> (nat \<times> bool) list \<Rightarrow> (nat + bool list \<times> (nat \<times> bool) list) outcome" where
  "awaitNonce i checked [] =
     (if i < length checked then (if checked ! i then Return (Inr (checked, [])) else Blocked)
      else Panic)"
| "awaitNonce i checked ((j, valid) # q) =
     (if i < length checked
      then (if checked ! i then Return (Inr (checked, (j, valid) # q))
            else if j < length checked
            then (if \<not> valid then Return (Inl j) else awaitNonce i (checked[j := True]) q)
            else Panic)
      else Panic)"

datatype step =
    Next blockchain insert_locals
  | Stop nat error blockchain

definition park :: "block \<Rightarrow> blockchain \<Rightarrow> insert_locals \<Rightarrow> step" where
  "park b s l =
     Next (s\<lparr>futureBlocks := lruAdd maxFutureBlocks (BlockHash b) b (futureBlocks s)\<rparr>)
          (l\<lparr>stats := (stats l)\<lparr>st_queued := Suc (st_queued (stats l))\<rparr>\<rparr>)"

text \<open>What the loop does with a block whose stage 1 validation failed with \<open>err\<close>.\<close>

definition onValidateError ::
  "env \<Rightarrow> nat \<Rightarrow> block \<Rightarrow> error \<Rightarrow> blockchain \<Rightarrow> insert_locals \<Rightarrow> step" where
  "onValidateError env i b err s l =
     (if IsKnownBlockErr err
      then Next s (l\<lparr>stats := (stats l)\<lparr>st_ignored := Suc (st_ignored (stats l))\<rparr>\<rparr>)
      else if err = BlockFutureErr
      then (let max = sint (unixNow env i + maxTimeFutureBlocks)
            in if BlockTime b > max then Stop i (BlockFutureTooFar (BlockTime b) max) s
               else park b s l)
      else if IsParentErr err \<and> lruContains (ParentHash b) (futureBlocks s)
      then park b s l
      else Stop i err s)"

text \<open>
  The block passed validation: reset the scratchpad to the parent's root, process,
  validate the state, commit, write the receipts and the block, queue the event.
\<close>

definition afterWrite ::
  "env \<Rightarrow> nat \<Rightarrow> block \<Rightarrow> receipt list \<Rightarrow> log_entry list \<Rightarrow> WriteStatus \<Rightarrow> blockchain \<Rightarrow>
   insert_locals \<Rightarrow> step" where
  "afterWrite env i b receipts logs status s l =
     (let done = (\<lambda>s' evs.
            Next s' (l\<lparr>events := events l @ evs,
                       stats := (stats l)\<lparr>st_processed := Suc (st_processed (stats l))\<rparr>\<rparr>))
      in case status of
           CanonStatTy \<Rightarrow>
             (case WriteTransactionsErr env s b of
                Some e \<Rightarrow> Stop i e s
              | None \<Rightarrow>
                  (let s1 = WriteTransactions b s in
                   case WriteReceiptsErr env s1 receipts of
                     Some e \<Rightarrow> Stop i e s1
                   | None \<Rightarrow>
                       (let s2 = WriteReceipts receipts s1 in
                        case WriteMipmapBloomErr env s2 (NumberU64 b) receipts of
                          Some e \<Rightarrow> Stop i e s2
                        | None \<Rightarrow>
                            done (WriteMipmapBloom (NumberU64 b) receipts s2)
                              [ChainEvent b (BlockHash b) logs])))
         | SideStatTy \<Rightarrow> done s [ChainSideEvent b logs]
         | SplitStatTy \<Rightarrow> done s [ChainSplitEvent b logs]
         | NonStatTy \<Rightarrow> done s [])"

definition processBlock ::
  "env \<Rightarrow> nat \<Rightarrow> block list \<Rightarrow> nat \<Rightarrow> block \<Rightarrow> blockchain \<Rightarrow> insert_locals \<Rightarrow>
   step outcome" where
  "processBlock env fuel chain i b s l =
     (case (if i = 0
            then (case GetBlock s (ParentHash b) of
                    None \<Rightarrow> None
                  | Some parent \<Rightarrow> Some (BlockRoot parent))
            else Some (BlockRoot (chain ! (i - 1)))) of
        None \<Rightarrow> Panic
      | Some parentRoot \<Rightarrow>
          (case stateReset env s parentRoot of
             Some e \<Rightarrow> Return (Stop i e s)
           | None \<Rightarrow>
               (let s1 = s\<lparr>stateCache := Some parentRoot\<rparr> in
                case Process env s1 b of
                  Inl e \<Rightarrow> Return (Stop i e s1)
                | Inr (receipts, logs, usedGas, newRoot) \<Rightarrow>
                    (let s2 = s1\<lparr>stateCache := Some newRoot\<rparr> in
                     case ValidateState env s2 b (GetBlock s2 (ParentHash b)) receipts usedGas of
                       Some e \<Rightarrow> Return (Stop i e s2)
                     | None \<Rightarrow>
                         (case stateCommit env s2 of
                            Inl e \<Rightarrow> Return (Stop i e s2)
                          | Inr committed \<Rightarrow>
                              (let s3 = s2\<lparr>stateRoots := insert committed (stateRoots s2)\<rparr>;
                                   l1 = l\<lparr>coalescedLogs := coalescedLogs l @ logs\<rparr>
                               in case WriteBlockReceiptsErr env s3 (BlockHash b) receipts of
                                    Some e \<Rightarrow> Return (Stop i e s3)
                                  | None \<Rightarrow>
                                      (let s4 = WriteBlockReceipts (BlockHash b) receipts s3;
                                           l2 = l1\<lparr>txcount :=
                                                  txcount l1 + length (b_transactions b)\<rparr>
                                       in andThen (WriteBlock env fuel (float64Draw env i) s4 b)
                                            (\<lambda>(status, err, s5).
                                               case err of
                                                 Some e \<Rightarrow> Return (Stop i e s5)
                                               | None \<Rightarrow>
                                                   Return (afterWrite env i b receipts logs
                                                             status s5 l2)))))))))"

text \<open>One iteration of the loop, after the interrupt check.\<close>

definition insertIter ::
  "env \<Rightarrow> nat \<Rightarrow> block list \<Rightarrow> nat \<Rightarrow> block \<Rightarrow> blockchain \<Rightarrow> insert_locals \<Rightarrow>
   step outcome" where
  "insertIter env fuel chain i b s l =
     andThen (awaitNonce i (nonceChecked l) (nonceResults l))
       (\<lambda>r. case r of
           Inl j \<Rightarrow>
             Return (Stop j (BlockNonceErr (BlockHash (chain ! j)) (NumberU64 (chain ! j))
                               (h_nonce (b_header (chain ! j)))) s)
         | Inr (checked, q) \<Rightarrow>
             (let l1 = l\<lparr>nonceChecked := checked, nonceResults := q\<rparr> in
              case HeaderCheck env (b_header b) of
                Some e \<Rightarrow> Return (Stop i e s)
              | None \<Rightarrow>
                  (case ValidateBlock env s b of
                     Some err \<Rightarrow> Return (onValidateError env i b err s l1)
                   | None \<Rightarrow> processBlock env fuel chain i b s l1)))"

definition finishInsert ::
  "blockchain \<Rightarrow> insert_locals \<Rightarrow> (nat \<times> error option \<times> blockchain) outcome" where
  "finishInsert s l = Return (0, None, spawn (PostChainEvents (events l) (coalescedLogs l)) s)"

fun insertLoop ::
  "env \<Rightarrow> nat \<Rightarrow> block list \<Rightarrow> nat \<Rightarrow> block list \<Rightarrow> blockchain \<Rightarrow> insert_locals \<Rightarrow>
   (nat \<times> error option \<times> blockchain) outcome" where
  "insertLoop env fuel chain i [] s l = finishInsert s l"
| "insertLoop env fuel chain i (b # rest) s l =
     (if procInterrupt s then finishInsert s l
      else andThen (insertIter env fuel chain i b s l)
             (\<lambda>st. case st of
                 Next s' l' \<Rightarrow> insertLoop env fuel chain (Suc i) rest s' l'
               | Stop j e s' \<Rightarrow> Return (j, Some e, s')))"

definition initLocals :: "env \<Rightarrow> block list \<Rightarrow> insert_locals" where
  "initLocals env chain =
     \<lparr>stats = \<lparr>st_queued = 0, st_processed = 0, st_ignored = 0\<rparr>,
      events = [], coalescedLogs = [], txcount = 0,
      nonceChecked = replicate (length chain) False,
      nonceResults = verifyNonces env chain\<rparr>"

definition InsertChain ::
  "env \<Rightarrow> nat \<Rightarrow> blockchain \<Rightarrow> block list \<Rightarrow> (nat \<times> error option \<times> blockchain) outcome" where
  "InsertChain env fuel s chain =
     (case checkContiguous 1 chain of
        Some i \<Rightarrow> Return (0, Some (NonContiguous (i - 1) i), s)
      | None \<Rightarrow> insertLoop env fuel chain 0 chain s (initLocals env chain))"

section \<open>Startup recovery, SetHead and Reset\<close>

text \<open>
  \<open>reflect.DeepEqual(b, self.Genesis())\<close> is equality of blocks. A block read from the
  store always carries a header, so \<open>errNilHeader\<close> has no input that reaches it.
\<close>

definition blockIsGenesis :: "blockchain \<Rightarrow> block \<Rightarrow> bool" where
  "blockIsGenesis s b = (b = genesisBlock s)"

definition blockIsUnhealthy :: "env \<Rightarrow> blockchain \<Rightarrow> block option \<Rightarrow> error option" where
  "blockIsUnhealthy env s ob =
     (case ob of
        None \<Rightarrow> Some errNilBlock
      | Some b \<Rightarrow>
          if \<not> blockIsGenesis s b
          then (if NumberU64 b = 0 then Some NumberZeroNotGenesis
                else if ParentHash b = zeroHash then Some (ParentError (ParentHash b))
                else (case GetBlock s (ParentHash b) of
                        None \<Rightarrow> Some (ParentError (ParentHash b))
                      | Some parent \<Rightarrow> ValidateHeader env s (b_header b) (b_header parent)))
          else None)"

text \<open>
  Modelled from the spec: \<open>HeaderChain.SetHead\<close> (core/headerchain.go) is not among
  the sources. Section 4.B: for every height above \<open>n\<close> in the canonical index, delete
  the canonical mapping, the header and the total difficulty and call \<open>delBodyFn\<close> on
  the hash (here \<open>DeleteBody\<close>); set the current header to the canonical header at
  \<open>n\<close>, or to genesis.
\<close>

definition aboveHead :: "'a chaindb_scheme \<Rightarrow> 64 word \<Rightarrow> hash \<Rightarrow> bool" where
  "aboveHead s n h = (\<exists>k. n < k \<and> canonical s k = Some h)"

definition hc_SetHead :: "64 word \<Rightarrow> blockchain \<Rightarrow> blockchain" where
  "hc_SetHead n s =
     (let s1 = s\<lparr>headers := (\<lambda>h. if aboveHead s n h then None else headers s h),
                 tds := (\<lambda>h. if aboveHead s n h then None else tds s h),
                 bodies := (\<lambda>h. if aboveHead s n h then None else bodies s h),
                 canonical := (\<lambda>k. if n < k then None else canonical s k)\<rparr>
      in SetCurrentHeader
           (case canonical s1 n of
              None \<Rightarrow> hc_genesisHeader s1
            | Some h \<Rightarrow> (case GetHeader s1 h of None \<Rightarrow> hc_genesisHeader s1 | Some hdr \<Rightarrow> hdr))
           s1)"

text \<open>
  \<open>SetHead\<close> between taking \<open>mu\<close> and the final \<open>loadLastState\<close>: the header
  chain is rewound, the caches are purged, the block pointers follow the header down,
  fall back to genesis, and are persisted.
\<close>

definition rewindTo :: "blockchain \<Rightarrow> header \<Rightarrow> block option \<Rightarrow> block option" where
  "rewindTo s currentHeader ob =
     (case ob of
        None \<Rightarrow> None
      | Some b \<Rightarrow>
          if h_number currentHeader < NumberU64 b then GetBlock s (h_hash currentHeader)
          else Some b)"

definition SetHeadRewind :: "64 word \<Rightarrow> blockchain \<Rightarrow> blockchain" where
  "SetHeadRewind head s =
     (let s1 = (hc_SetHead head s)\<lparr>futureBlocks := []\<rparr>;
          currentHeader = hc_currentHeader s1;
          cb1 = rewindTo s1 currentHeader (currentBlock s1);
          cb2 = (case cb1 of
                   None \<Rightarrow> None
                 | Some b \<Rightarrow> if stateNew s1 (BlockRoot b) then Some b else None);
          fb1 = rewindTo s1 currentHeader (currentFastBlock s1);
          cb3 = (case cb2 of None \<Rightarrow> genesisBlock s1 | Some b \<Rightarrow> b);
          fb2 = (case fb1 of None \<Rightarrow> genesisBlock s1 | Some b \<Rightarrow> b)
      in WriteHeadFastBlockHash (BlockHash fb2)
           (WriteHeadBlockHash (BlockHash cb3)
              (s1\<lparr>currentBlock := Some cb3, currentFastBlock := Some fb2\<rparr>)))"

text \<open>
  The forward scan of \<open>loadLastState\<close>: \<open>for i := 1; i < 5000000; i += 2048\<close>,
  left at the first height without a canonical block; \<open>lastOk\<close> is the last healthy
  block seen.
\<close>

function scanForward :: "env \<Rightarrow> blockchain \<Rightarrow> nat \<Rightarrow> block option \<Rightarrow> block option" where
  "scanForward env s i lastOk =
     (if i < 5000000
      then (case GetBlockByNumber s (word_of_nat i) of
              None \<Rightarrow> lastOk
            | Some bb \<Rightarrow>
                scanForward env s (i + 2048)
                  (if blockIsUnhealthy env s (Some bb) = None then Some bb else lastOk))
      else lastOk)"
  by pat_completeness auto
termination
  by (relation "measure (\<lambda>(env, s, i, lastOk). 5000000 - i)") auto

declare scanForward.simps [simp del]

text \<open>
  \<open>loadLastState\<close> up to the point where it calls \<open>Reset\<close> or \<open>SetHead\<close> or
  returns. The two block tests before the scan go through \<open>blockIsGenesis\<close>; the third
  test, \<open>currentHeader == self.Genesis().Header()\<close>, compares two
  \<open>*types.Header\<close> pointers. When the stored head header hash is set and its header is
  in the store, \<open>currentHeader\<close> is the object \<open>GetHeader\<close> returned, which is
  not the pointer a block's \<open>Header()\<close> returns, and the test fails; otherwise
  \<open>currentHeader\<close> is what \<open>currentBlock.Header()\<close> returned and the outcome is
  \<open>SameHeaderPointer\<close>.
\<close>

datatype recovery =
    DoReset
  | DoSetHead "64 word" blockchain
  | Done "error option" blockchain

definition primeState :: "block \<Rightarrow> blockchain \<Rightarrow> recovery" where
  "primeState cur s =
     (if stateNew s (BlockRoot cur) then Done None (s\<lparr>stateCache := Some (BlockRoot cur)\<rparr>)
      else Done (Some (OtherError 0)) s)"

definition loadHeads :: "block \<Rightarrow> blockchain \<Rightarrow> blockchain" where
  "loadHeads cur s =
     (let s1 = s\<lparr>currentBlock := Some cur\<rparr>;
          currentHeader =
            (if headHeaderHash s1 \<noteq> zeroHash
             then (case GetHeader s1 (headHeaderHash s1) of
                     None \<Rightarrow> b_header cur
                   | Some hdr \<Rightarrow> hdr)
             else b_header cur);
          s2 = SetCurrentHeader currentHeader s1;
          fast =
            (if headFastBlockHash s2 \<noteq> zeroHash
             then (case GetBlock s2 (headFastBlockHash s2) of None \<Rightarrow> cur | Some b \<Rightarrow> b)
             else cur)
      in s2\<lparr>currentFastBlock := Some fast\<rparr>)"

definition headerFromStore :: "blockchain \<Rightarrow> bool" where
  "headerFromStore s =
     (headHeaderHash s \<noteq> zeroHash \<and> GetHeader s (headHeaderHash s) \<noteq> None)"

definition headsAtGenesis :: "env \<Rightarrow> bool \<Rightarrow> block \<Rightarrow> blockchain \<Rightarrow> bool" where
  "headsAtGenesis env fromStore cur s =
     ((case currentBlock s of None \<Rightarrow> False | Some b \<Rightarrow> blockIsGenesis s b)
      \<and> (case currentFastBlock s of None \<Rightarrow> False | Some b \<Rightarrow> blockIsGenesis s b)
      \<and> (if fromStore then False else SameHeaderPointer env cur (genesisBlock s)))"

definition loadLastStateCheck :: "env \<Rightarrow> blockchain \<Rightarrow> recovery" where
  "loadLastStateCheck env s =
     (if headBlockHash s = zeroHash then DoReset
      else
        (case GetBlock s (headBlockHash s) of
           None \<Rightarrow> DoReset
         | Some cur \<Rightarrow>
             if blockIsUnhealthy env s (Some cur) \<noteq> None then DoReset
             else if \<not> blockIsGenesis s cur
                     \<and> (case ValidateBlock env s cur of
                           None \<Rightarrow> False
                         | Some e \<Rightarrow> \<not> IsKnownBlockErr e)
             then DoReset
             else if \<not> stateNew s (BlockRoot cur) then DoReset
             else
               (let s1 = loadHeads cur s in
                if headsAtGenesis env (headerFromStore s) cur s1
                then (case scanForward env s1 1 None of
                        Some lastOk \<Rightarrow> DoSetHead (NumberU64 lastOk) s1
                      | None \<Rightarrow> primeState cur s1)
                else primeState cur s1)))"

text \<open>What \<open>ResetWithGenesisBlock\<close> does after its \<open>SetHead(0)\<close>, under \<open>mu\<close>.\<close>

definition resetGenesis :: "block \<Rightarrow> blockchain \<Rightarrow> blockchain" where
  "resetGenesis genesis s =
     (let s1 = WriteTd (BlockHash genesis) (BlockDifficulty genesis) s;
          s2 = db_WriteBlock genesis s1;
          s3 = insertBlock genesis (s2\<lparr>genesisBlock := genesis\<rparr>);
          s4 = s3\<lparr>currentBlock := Some genesis, hc_genesisHeader := b_header genesis\<rparr>;
          s5 = SetCurrentHeader (b_header genesis) s4
      in s5\<lparr>currentFastBlock := Some genesis\<rparr>)"

text \<open>
  The three functions call each other; each call spends one unit of fuel. \<open>SetHead\<close>
  holds \<open>mu\<close> while its \<open>loadLastState\<close> runs, and \<open>sync.RWMutex\<close> is not
  reentrant: a \<open>SetHead\<close> reached from there never returns.
\<close>

fun loadLastState :: "nat \<Rightarrow> env \<Rightarrow> blockchain \<Rightarrow> (error option \<times> blockchain) outcome"
  and SetHead :: "nat \<Rightarrow> env \<Rightarrow> 64 word \<Rightarrow> blockchain \<Rightarrow> (error option \<times> blockchain) outcome"
  and ResetWithGenesisBlock ::
    "nat \<Rightarrow> env \<Rightarrow> block \<Rightarrow> blockchain \<Rightarrow> (error option \<times> blockchain) outcome" where
  "loadLastState 0 env s = OutOfFuel"
| "loadLastState (Suc k) env s =
     (case loadLastStateCheck env s of
        DoReset \<Rightarrow> ResetWithGenesisBlock k env (genesisBlock s) s
      | DoSetHead n s' \<Rightarrow> SetHead k env n s'
      | Done e s' \<Rightarrow> Return (e, s'))"
| "SetHead 0 env head s = OutOfFuel"
| "SetHead (Suc k) env head s =
     (if mu s then Blocked
      else andThen (loadLastState k env (SetHeadRewind head (s\<lparr>mu := True\<rparr>)))
             (\<lambda>(e, s'). Return (e, s'\<lparr>mu := False\<rparr>)))"
| "ResetWithGenesisBlock 0 env genesis s = OutOfFuel"
| "ResetWithGenesisBlock (Suc k) env genesis s =
     andThen (SetHead k env 0 s)
       (\<lambda>(e, s').
          case e of
            Some err \<Rightarrow> Return (Some err, s')
          | None \<Rightarrow> if mu s' then Blocked else Return (None, resetGenesis genesis s'))"

definition Reset :: "nat \<Rightarrow> env \<Rightarrow> blockchain \<Rightarrow> (error option \<times> blockchain) outcome" where
  "Reset fuel env s = ResetWithGenesisBlock fuel env (genesisBlock s) s"

section \<open>NewBlockChain\<close>

text \<open>
  The constructor takes the store. \<open>NewHeaderChain\<close> is run on it first and yields
  the header chain's genesis and current header or fails; the genesis block is looked up
  in the store as \<open>NewHeaderChain\<close> leaves it; the block pointers start as nil.
  The result is the chain, or the error together with the store as the failed
  construction leaves it. The background flusher \<open>go bc.update()\<close> is not part of
  the result.
\<close>

definition newChain0 :: "chaindb \<Rightarrow> block \<Rightarrow> header \<Rightarrow> header \<Rightarrow> blockchain" where
  "newChain0 db genesis genesisHeader currentHeader =
     chaindb.extend db
       (blockchain.fields genesis genesisHeader currentHeader None None [] False False None [])"

fun rewindBadHashes ::
  "nat \<Rightarrow> env \<Rightarrow> (hash \<times> 64 word) list \<Rightarrow> blockchain \<Rightarrow> blockchain outcome" where
  "rewindBadHashes fuel env [] s = Return s"
| "rewindBadHashes fuel env ((h, n) # rest) s =
     (case GetHeader s h of
        None \<Rightarrow> rewindBadHashes fuel env rest s
      | Some hdr \<Rightarrow>
          if h_number hdr = n
          then andThen (SetHead fuel env (h_number hdr - 1) s)
                 (\<lambda>(e, s'). rewindBadHashes fuel env rest s')
          else rewindBadHashes fuel env rest s)"

definition NewBlockChain ::
  "nat \<Rightarrow> env \<Rightarrow> chaindb \<Rightarrow> (error \<times> chaindb + blockchain) outcome" where
  "NewBlockChain fuel env db =
     (case NewHeaderChain env db of
        (Inl e, db1) \<Rightarrow> Return (Inl (e, db1))
      | (Inr (genesisHeader, currentHeader), db1) \<Rightarrow>
          (case GetBlockByNumber db1 0 of
             None \<Rightarrow> Return (Inl (ErrNoGenesis, db1))
           | Some genesis \<Rightarrow>
               andThen (loadLastState fuel env (newChain0 db1 genesis genesisHeader currentHeader))
                 (\<lambda>(e, s).
                    case e of
                      Some err \<Rightarrow> Return (Inl (err, chaindb.truncate s))
                    | None \<Rightarrow>
                        andThen (rewindBadHashes fuel env (BadHashes env) s)
                          (\<lambda>s'. Return (Inr s')))))"


section \<open>Predicates of the properties\<close>

text \<open>Index \<open>i\<close> of a batch does not continue index \<open>i - 1\<close>.\<close>

definition breaksAt :: "block list \<Rightarrow> nat \<Rightarrow> bool" where
  "breaksAt chain i =
     (NumberU64 (chain ! i) \<noteq> NumberU64 (chain ! (i - 1)) + 1
      \<or> ParentHash (chain ! i) \<noteq> BlockHash (chain ! (i - 1)))"

text \<open>
  Two states with the same headers, bodies, total difficulties, canonical index, block
  receipts, transaction receipts and lookups and bloom mip-map, and the same mutex.
\<close>

definition sameStore :: "blockchain \<Rightarrow> blockchain \<Rightarrow> bool" where
  "sameStore s' s =
     (headers s' = headers s \<and> bodies s' = bodies s \<and> tds s' = tds s
      \<and> canonical s' = canonical s \<and> blockReceipts s' = blockReceipts s
      \<and> txReceipts s' = txReceipts s \<and> txLookup s' = txLookup s
      \<and> mipmapBloom s' = mipmapBloom s \<and> mu s' = mu s)"


text \<open>
  What claim C8 says of the receipts \<open>rs'\<close> that InsertReceiptChain derives from the
  receipts \<open>rs\<close> of block \<open>b\<close>: the transaction hash, the contract address
  for a creation (left alone otherwise), the gas used as the difference of cumulative
  gas, the block number, block hash, transaction hash and transaction index on every
  log, and log indices that count from 0 through the logs of the block.
\<close>

definition derivedFrom :: "env \<Rightarrow> block \<Rightarrow> receipt list \<Rightarrow> receipt list \<Rightarrow> bool" where
  "derivedFrom env b rs rs' =
     (length rs' = length rs
      \<and> (\<forall>j < length rs.
            j < length (b_transactions b)
            \<and> r_txHash (rs' ! j) = tx_hash (b_transactions b ! j)
            \<and> r_contractAddress (rs' ! j)
                = (if MessageCreatesContract env (b_transactions b ! j)
                   then CreateAddress env (Sender env (NumberU64 b) (b_transactions b ! j))
                          (tx_nonce (b_transactions b ! j))
                   else r_contractAddress (rs ! j))
            \<and> r_gasUsed (rs' ! j)
                = (if j = 0 then r_cumulativeGasUsed (rs ! 0)
                   else r_cumulativeGasUsed (rs ! j) - r_cumulativeGasUsed (rs ! (j - 1)))
            \<and> r_cumulativeGasUsed (rs' ! j) = r_cumulativeGasUsed (rs ! j)
            \<and> length (r_logs (rs' ! j)) = length (r_logs (rs ! j))
            \<and> (\<forall>k < length (r_logs (rs ! j)).
                  l_blockNumber (r_logs (rs' ! j) ! k) = NumberU64 b
                  \<and> l_blockHash (r_logs (rs' ! j) ! k) = BlockHash b
                  \<and> l_txHash (r_logs (rs' ! j) ! k) = r_txHash (rs' ! j)
                  \<and> l_txIndex (r_logs (rs' ! j) ! k) = j
                  \<and> l_address (r_logs (rs' ! j) ! k) = l_address (r_logs (rs ! j) ! k)
                  \<and> l_topics (r_logs (rs' ! j) ! k) = l_topics (r_logs (rs ! j) ! k)
                  \<and> l_data (r_logs (rs' ! j) ! k) = l_data (r_logs (rs ! j) ! k)))
      \<and> map l_index (concat (map r_logs rs')) = [0 ..< length (concat (map r_logs rs))])"


text \<open>The receipt the loop leaves at one index.\<close>

definition derivedAt ::
  "env \<Rightarrow> block \<Rightarrow> nat \<Rightarrow> int \<Rightarrow> nat \<Rightarrow> receipt \<Rightarrow> receipt" where
  "derivedAt env b j prev li r =
     r\<lparr>r_txHash := tx_hash (b_transactions b ! j),
       r_contractAddress :=
         (if MessageCreatesContract env (b_transactions b ! j)
          then CreateAddress env (Sender env (NumberU64 b) (b_transactions b ! j))
                 (tx_nonce (b_transactions b ! j))
          else r_contractAddress r),
       r_gasUsed := (if j = 0 then r_cumulativeGasUsed r else r_cumulativeGasUsed r - prev),
       r_logs := stampLogs b (tx_hash (b_transactions b ! j)) j li (r_logs r)\<rparr>"


text \<open>
  A list of blocks in which each block's parent, looked up in the store, is the next
  block; a block whose stored parent has a lower number; a store in which that holds of
  every stored block.
\<close>

fun descends :: "'a chaindb_scheme \<Rightarrow> block list \<Rightarrow> bool" where
  "descends s (x # y # ys) = (GetBlock s (ParentHash x) = Some y \<and> descends s (y # ys))"
| "descends s [x] = True"
| "descends s [] = True"

definition lowerParent :: "'a chaindb_scheme \<Rightarrow> block \<Rightarrow> bool" where
  "lowerParent s b =
     (case GetBlock s (ParentHash b) of None \<Rightarrow> True | Some p \<Rightarrow> NumberU64 p < NumberU64 b)"

definition parentsLower :: "'a chaindb_scheme \<Rightarrow> bool" where
  "parentsLower s = (\<forall>h b. GetBlock s h = Some b \<longrightarrow> lowerParent s b)"


text \<open>
  A store whose headers are filed under their own hash, whose canonical index names at
  each height a header of that number, and in which the headers filed under the hashes
  of the genesis block, of the genesis header and of the head block carry the numbers
  of these (0 for genesis).
\<close>

definition consistent :: "blockchain \<Rightarrow> bool" where
  "consistent s =
     ((\<forall>h x. headers s h = Some x \<longrightarrow> h_hash x = h)
      \<and> (\<forall>k h x. canonical s k = Some h \<longrightarrow> headers s h = Some x \<longrightarrow> h_number x = k)
      \<and> (\<forall>x. headers s (BlockHash (genesisBlock s)) = Some x \<longrightarrow> h_number x = 0)
      \<and> (\<forall>x. headers s (h_hash (hc_genesisHeader s)) = Some x \<longrightarrow> h_number x = 0)
      \<and> h_number (hc_genesisHeader s) = 0
      \<and> (\<forall>b x. currentBlock s = Some b \<longrightarrow> headers s (BlockHash b) = Some x \<longrightarrow>
             h_number x = NumberU64 b))"

text \<open>
  The block \<open>SetHead\<close> settles on after the header chain is rewound, before it
  falls back to genesis: the head block, replaced by the block of the rewound header
  when it is higher; \<open>None\<close> when there is no head block, when that block is
  not in the store, or when its state is missing.
\<close>

definition headChoice :: "64 word \<Rightarrow> blockchain \<Rightarrow> block option" where
  "headChoice n s =
     (case rewindTo (hc_SetHead n s) (hc_currentHeader (hc_SetHead n s)) (currentBlock s) of
        None \<Rightarrow> None
      | Some b \<Rightarrow> if stateNew (hc_SetHead n s) (BlockRoot b) then Some b else None)"


text \<open>
  The forward scan started at height \<open>i0\<close> gets as far as its \<open>j\<close>-th stride:
  each of the heights \<open>i0\<close>, \<open>i0 + 2048\<close>, ..., \<open>i0 + 2048 * j\<close> is below
  5000000 and has a canonical block. A height has a healthy canonical block. The checks
  \<open>loadLastState\<close> makes on the block \<open>cur\<close> under the stored head hash before it
  takes it as the head.
\<close>

definition scanned :: "blockchain \<Rightarrow> nat \<Rightarrow> nat \<Rightarrow> bool" where
  "scanned s i0 j =
     (\<forall>i \<in> {..j}. i0 + 2048 * i < 5000000
                    \<and> GetBlockByNumber s (word_of_nat (i0 + 2048 * i)) \<noteq> None)"

definition healthyAt :: "env \<Rightarrow> blockchain \<Rightarrow> nat \<Rightarrow> bool" where
  "healthyAt env s n =
     (case GetBlockByNumber s (word_of_nat n) of
        None \<Rightarrow> False
      | Some b \<Rightarrow> blockIsUnhealthy env s (Some b) = None)"

definition headIntact :: "env \<Rightarrow> blockchain \<Rightarrow> block \<Rightarrow> bool" where
  "headIntact env s cur =
     (headBlockHash s \<noteq> zeroHash
      \<and> GetBlock s (headBlockHash s) = Some cur
      \<and> blockIsUnhealthy env s (Some cur) = None
      \<and> (blockIsGenesis s cur
           \<or> (case ValidateBlock env s cur of None \<Rightarrow> True | Some e \<Rightarrow> IsKnownBlockErr e))
      \<and> stateNew s (BlockRoot cur))"

section \<open>Concrete chains\<close>

text \<open>
  A genesis block \<open>blkG\<close> with the head \<open>blkA1\<close> on top, a stored side block
  \<open>blkB1\<close>, and blocks that arrive: \<open>blkB2\<close> on the side block, \<open>blkT1\<close>
  with the head's total difficulty, and \<open>blkB3\<close>, whose parent has a total
  difficulty in the store but no header or body.
\<close>

definition mkHeader :: "hash \<Rightarrow> hash \<Rightarrow> 64 word \<Rightarrow> int \<Rightarrow> header" where
  "mkHeader h p n d =
     \<lparr>h_hash = h, h_parentHash = p, h_number = n, h_difficulty = d, h_time = 0,
      h_root = h, h_nonce = 0\<rparr>"

definition mkBlock :: "hash \<Rightarrow> hash \<Rightarrow> 64 word \<Rightarrow> int \<Rightarrow> block" where
  "mkBlock h p n d = \<lparr>b_header = mkHeader h p n d, b_transactions = [], b_uncles = []\<rparr>"

definition emptyBody :: body where
  "emptyBody = \<lparr>bd_transactions = [], bd_uncles = []\<rparr>"

definition blkG :: block where "blkG = mkBlock 10 0 0 10"
definition blkA1 :: block where "blkA1 = mkBlock 11 10 1 10"
definition blkB1 :: block where "blkB1 = mkBlock 12 10 1 8"
definition blkB2 :: block where "blkB2 = mkBlock 13 12 2 8"
definition blkB3 :: block where "blkB3 = mkBlock 15 14 3 30"
definition blkT1 :: block where "blkT1 = mkBlock 16 10 1 10"

definition forkChain :: blockchain where
  "forkChain =
     \<lparr>headers = [10 \<mapsto> b_header blkG, 11 \<mapsto> b_header blkA1, 12 \<mapsto> b_header blkB1],
      bodies = [10 \<mapsto> emptyBody, 11 \<mapsto> emptyBody, 12 \<mapsto> emptyBody],
      tds = [10 \<mapsto> 10, 11 \<mapsto> 20, 12 \<mapsto> 18, 14 \<mapsto> 40],
      canonical = [0 \<mapsto> 10, 1 \<mapsto> 11],
      headBlockHash = 11, headHeaderHash = 11, headFastBlockHash = 11,
      blockReceipts = Map.empty, txLookup = Map.empty, txReceipts = Map.empty,
      mipmapBloom = Map.empty, stateRoots = {10, 11},
      genesisBlock = blkG, hc_genesisHeader = b_header blkG,
      hc_currentHeader = b_header blkA1,
      currentBlock = Some blkA1, currentFastBlock = Some blkA1,
      futureBlocks = [], procInterrupt = False, mu = False,
      stateCache = Some 11, goroutines = []\<rparr>"


text \<open>
  Collaborators that accept everything: every check passes, processing leaves the
  block's own root in the scratchpad, nonce results arrive in order and are valid, no
  write fails, the header chain is built from the canonical header at height 0 without
  writing, and \<open>Header()\<close> returns a fresh pointer at each call.
\<close>

definition quietEnv :: env where
  "quietEnv =
     \<lparr>HeaderCheck = (\<lambda>h. None),
      ValidateHeader = (\<lambda>s h p. None),
      ValidateBlock = (\<lambda>s b. None),
      ValidateState = (\<lambda>s b p rs g. None),
      Process = (\<lambda>s b. Inr ([], [], 0, BlockRoot b)),
      stateReset = (\<lambda>s r. None),
      stateCommit = (\<lambda>s. Inr (case stateCache s of None \<Rightarrow> zeroHash | Some r \<Rightarrow> r)),
      Sender = (\<lambda>n t. 77),
      MessageCreatesContract = (\<lambda>t. tx_to t = None),
      CreateAddress = (\<lambda>a n. a + unat n),
      verifyNonces = (\<lambda>chain. map (\<lambda>i. (i, True)) [0..<length chain]),
      unixNow = (\<lambda>i. 1000),
      float64Draw = (\<lambda>i. 0),
      NewHeaderChain = (\<lambda>db. (case GetHeader db (GetCanonicalHash db 0) of
                                 None \<Rightarrow> Inl ErrNoGenesis
                               | Some g \<Rightarrow> Inr (g, g), db)),
      WriteBlockReceiptsErr = (\<lambda>s h rs. None),
      WriteTransactionsErr = (\<lambda>s b. None),
      WriteReceiptsErr = (\<lambda>s rs. None),
      WriteMipmapBloomErr = (\<lambda>s n rs. None),
      SameHeaderPointer = (\<lambda>x g. False),
      BadHashes = []\<rparr>"

text \<open>
  A store on which \<open>WriteTransactions\<close> fails; validators that answer every block
  with one error; a block stamped 20 seconds after the clock of \<open>quietEnv\<close> and one
  stamped 31 seconds after it.
\<close>

definition failingStore :: env where
  "failingStore = quietEnv\<lparr>WriteTransactionsErr := (\<lambda>s b. Some (OtherError 1))\<rparr>"

definition answering :: "error \<Rightarrow> env" where
  "answering e = quietEnv\<lparr>ValidateBlock := (\<lambda>s b. Some e)\<rparr>"

definition stamped :: "int \<Rightarrow> block \<Rightarrow> block" where
  "stamped t b = b\<lparr>b_header := (b_header b)\<lparr>h_time := t\<rparr>\<rparr>"

definition blkF :: block where
  "blkF = stamped 1020 (mkBlock 17 11 2 10)"

definition blkL :: block where
  "blkL = stamped 1031 (mkBlock 18 11 2 10)"

definition interrupted :: blockchain where
  "interrupted = forkChain\<lparr>procInterrupt := True\<rparr>"

text \<open>The concrete chain with its three head pointers moved from the head to genesis.\<close>

definition rolledBack :: blockchain where
  "rolledBack =
     forkChain\<lparr>headBlockHash := 10, headHeaderHash := 10, headFastBlockHash := 10,
               hc_currentHeader := b_header blkG, currentBlock := Some blkG,
               currentFastBlock := Some blkG\<rparr>"


text \<open>
  A fast-sync store: the concrete chain with the header and total difficulty of block
  \<open>blkR\<close> but not its body. The block has a contract creation and a call; its
  receipts carry one and two logs.
\<close>

definition txCreate :: transaction where
  "txCreate = \<lparr>tx_hash = 100, tx_nonce = 5, tx_to = None\<rparr>"

definition txCall :: transaction where
  "txCall = \<lparr>tx_hash = 101, tx_nonce = 6, tx_to = Some 9\<rparr>"

definition blkR :: block where
  "blkR = \<lparr>b_header = mkHeader 20 11 2 10, b_transactions = [txCreate, txCall], b_uncles = []\<rparr>"

definition rawLog :: log_entry where
  "rawLog = \<lparr>l_address = 9, l_topics = [], l_data = [], l_blockNumber = 0, l_blockHash = 0,
             l_txHash = 0, l_txIndex = 0, l_index = 0\<rparr>"

definition rawReceipt :: "int \<Rightarrow> log_entry list \<Rightarrow> receipt" where
  "rawReceipt cum logs =
     \<lparr>r_cumulativeGasUsed = cum, r_txHash = 0, r_contractAddress = 0, r_gasUsed = 0,
      r_logs = logs\<rparr>"

definition receiptsR :: "receipt list" where
  "receiptsR = [rawReceipt 21000 [rawLog], rawReceipt 50000 [rawLog, rawLog]]"

definition stampedLog :: "hash \<Rightarrow> nat \<Rightarrow> nat \<Rightarrow> log_entry" where
  "stampedLog th j i =
     rawLog\<lparr>l_blockNumber := 2, l_blockHash := 20, l_txHash := th, l_txIndex := j, l_index := i\<rparr>"

definition derivedR :: "receipt list" where
  "derivedR =
     [\<lparr>r_cumulativeGasUsed = 21000, r_txHash = 100, r_contractAddress = 82,
       r_gasUsed = 21000, r_logs = [stampedLog 100 0 0]\<rparr>,
      \<lparr>r_cumulativeGasUsed = 50000, r_txHash = 101, r_contractAddress = 0,
       r_gasUsed = 29000, r_logs = [stampedLog 101 1 1, stampedLog 101 1 2]\<rparr>]"

definition fastSync :: blockchain where
  "fastSync =
     forkChain\<lparr>headers := (headers forkChain)(20 \<mapsto> mkHeader 20 11 2 10),
               tds := (tds forkChain)(20 \<mapsto> 30)\<rparr>"

text \<open>What the walk of \<open>reorg\<close> collects between the head \<open>blkA1\<close> and \<open>blkB2\<close>.\<close>

definition accB2 :: reorg_acc where
  "accB2 = \<lparr>newChain = [blkB2, blkB1], oldChain = [blkA1], deletedTxs = [],
            deletedLogs = [], deletedLogsByHash = Map.empty\<rparr>"

text \<open>A canonical chain of three blocks with every state present, the head at height 2.\<close>

definition blkA2 :: block where "blkA2 = mkBlock 19 11 2 10"

definition longChain :: blockchain where
  "longChain =
     \<lparr>headers = [10 \<mapsto> b_header blkG, 11 \<mapsto> b_header blkA1, 19 \<mapsto> b_header blkA2],
      bodies = [10 \<mapsto> emptyBody, 11 \<mapsto> emptyBody, 19 \<mapsto> emptyBody],
      tds = [10 \<mapsto> 10, 11 \<mapsto> 20, 19 \<mapsto> 30],
      canonical = [0 \<mapsto> 10, 1 \<mapsto> 11, 2 \<mapsto> 19],
      headBlockHash = 19, headHeaderHash = 19, headFastBlockHash = 19,
      blockReceipts = Map.empty, txLookup = Map.empty, txReceipts = Map.empty,
      mipmapBloom = Map.empty, stateRoots = {10, 11, 19},
      genesisBlock = blkG, hc_genesisHeader = b_header blkG,
      hc_currentHeader = b_header blkA2,
      currentBlock = Some blkA2, currentFastBlock = Some blkA2,
      futureBlocks = [], procInterrupt = False, mu = False,
      stateCache = Some 19, goroutines = []\<rparr>"

text \<open>
  A store with a canonical chain of heights 0 to 4096, the block of height \<open>n\<close>
  under the hash \<open>100 + n\<close>, every state present, and the three head pointers set
  to \<open>hp\<close>: absent for \<open>hp = 0\<close>, at genesis for \<open>hp = 100\<close>. The chain as
  \<open>NewBlockChain\<close> has it before \<open>loadLastState\<close>.
\<close>

definition deepBlock :: "hash \<Rightarrow> block" where
  "deepBlock h = mkBlock h (if h = 100 then 0 else h - 1) (word_of_nat (h - 100)) 10"

definition deepDb :: "hash \<Rightarrow> chaindb" where
  "deepDb hp =
     \<lparr>headers = (\<lambda>h. if 100 \<le> h \<and> h \<le> 4196 then Some (b_header (deepBlock h)) else None),
      bodies = (\<lambda>h. if 100 \<le> h \<and> h \<le> 4196 then Some emptyBody else None),
      tds = (\<lambda>h. if 100 \<le> h \<and> h \<le> 4196 then Some (10 * (int h - 99)) else None),
      canonical = (\<lambda>k. if unat k \<le> 4096 then Some (100 + unat k) else None),
      headBlockHash = hp, headHeaderHash = hp, headFastBlockHash = hp,
      blockReceipts = Map.empty, txLookup = Map.empty, txReceipts = Map.empty,
      mipmapBloom = Map.empty, stateRoots = {h. 100 \<le> h \<and> h \<le> 4196}\<rparr>"

definition deepChain :: "hash \<Rightarrow> blockchain" where
  "deepChain hp =
     newChain0 (deepDb hp) (deepBlock 100) (b_header (deepBlock 100)) (b_header (deepBlock 100))"

text \<open>What startup leaves of that store when the head pointers are absent.\<close>

definition purged :: blockchain where
  "purged =
     resetGenesis (deepBlock 100)
       ((loadHeads (deepBlock 100) (SetHeadRewind 0 ((deepChain 0)\<lparr>mu := True\<rparr>)))
          \<lparr>stateCache := Some 100, mu := False\<rparr>)"

text \<open>What startup leaves of it when the head pointers name the genesis block.\<close>

definition stalled :: blockchain where
  "stalled = (loadHeads (deepBlock 100) (deepChain 100))\<lparr>stateCache := Some 100\<rparr>"

text \<open>
  What \<open>reorg\<close> leaves when \<open>blkB2\<close> arrives on the side block \<open>blkB1\<close>: the
  blocks are inserted as the walk collected them, \<open>blkB2\<close> first; and what
  \<open>WriteBlock\<close> leaves after it.
\<close>

definition afterReorgB2 :: blockchain where
  "afterReorgB2 =
     spawn (PostSideEvents [ChainSideEvent blkA1 []])
       (snd (reinsert quietEnv blkB1 (snd (reinsert quietEnv blkB2 forkChain))))"

definition afterWriteB2 :: blockchain where
  "afterWriteB2 = writeBlockData blkB2 26 (insertBlock blkB2 afterReorgB2)"

section \<open>Facts about the store and the concrete chains\<close>

lemmas ex_defs = forkChain_def blkG_def blkA1_def blkB1_def blkB2_def blkB3_def blkT1_def
  mkBlock_def mkHeader_def emptyBody_def

lemmas acc_defs = BlockHash_def ParentHash_def NumberU64_def BlockDifficulty_def BlockBody_def
  GetTd_def GetBlock_def GetHeader_def GetBody_def GetCanonicalHash_def GetBlockReceipts_def

lemma reduceNew_numeral [simp]:
  "reduceNew (numeral k) s ob None acc = Return (None, acc)"
  "reduceNew (numeral k) s ob (Some nb) acc =
     (if NumberU64 nb \<noteq> NumberU64 ob
      then reduceNew (pred_numeral k) s ob (GetBlock s (ParentHash nb)) (acc\<lparr>newChain := newChain acc @ [nb]\<rparr>)
      else Return (Some nb, acc))"
  by (subst numeral_eq_Suc, simp)+

lemma reduceOld_numeral [simp]:
  "reduceOld (numeral k) s None nb acc = Return (None, acc)"
  "reduceOld (numeral k) s (Some ob) nb acc =
     (if NumberU64 ob \<noteq> NumberU64 nb
      then reduceOld (pred_numeral k) s (GetBlock s (ParentHash ob)) nb (dropOld s ob acc)
      else Return (Some ob, acc))"
  by (subst numeral_eq_Suc, simp)+

lemma findCommon_numeral [simp]:
  "findCommon (numeral k) s ob nb acc =
     (if BlockHash ob = BlockHash nb then Return (Inr (ob, acc))
      else
        (let acc' = dropOld s ob (acc\<lparr>newChain := newChain acc @ [nb]\<rparr>)
         in case GetBlock s (ParentHash ob) of
              None \<Rightarrow> Return (Inl InvalidOldChain)
            | Some ob' \<Rightarrow>
                (case GetBlock s (ParentHash nb) of
                   None \<Rightarrow> Return (Inl InvalidNewChain)
                 | Some nb' \<Rightarrow> findCommon (pred_numeral k) s ob' nb' acc')))"
  by (subst numeral_eq_Suc, simp)

lemma blk_fields [simp]:
  "BlockHash (mkBlock h p n d) = h"
  "ParentHash (mkBlock h p n d) = p"
  "NumberU64 (mkBlock h p n d) = n"
  "BlockDifficulty (mkBlock h p n d) = d"
  "b_transactions (mkBlock h p n d) = []"
  by (simp_all add: mkBlock_def mkHeader_def acc_defs)

lemma forkChain_blocks:
  "GetBlock forkChain 10 = Some blkG"
  "GetBlock forkChain 11 = Some blkA1"
  "GetBlock forkChain 12 = Some blkB1"
  "GetBlock forkChain 14 = None"
  "GetBlock forkChain 15 = None"
  by (simp_all add: ex_defs GetBlock_def GetHeader_def GetBody_def)

lemma forkChain_receipts: "GetBlockReceipts forkChain h = []"
  by (simp add: forkChain_def GetBlockReceipts_def)

lemma forkChain_tds:
  "GetTd forkChain 10 = Some 10"
  "GetTd forkChain 11 = Some 20"
  "GetTd forkChain 12 = Some 18"
  "GetTd forkChain 13 = None"
  "GetTd forkChain 14 = Some 40"
  "GetTd forkChain 15 = None"
  by (simp_all add: forkChain_def GetTd_def)

lemma forkChain_heads:
  "currentBlock forkChain = Some blkA1" "mu forkChain = False"
  by (simp_all add: forkChain_def)

lemmas blk_defs = blkG_def blkA1_def blkB1_def blkB2_def blkB3_def blkT1_def

lemma GetTd_writeBlockData:
  "GetTd (writeBlockData b td s) (BlockHash b) = Some td"
  by (simp add: writeBlockData_def GetTd_def WriteTd_def db_WriteBlock_def WriteHeader_def
      WriteBody_def Let_def)

lemma GetBlock_writeBlockData:
  "GetBlock (writeBlockData b td s) (BlockHash b) = Some b"
  by (simp add: writeBlockData_def GetBlock_def GetHeader_def GetBody_def WriteTd_def
      db_WriteBlock_def WriteHeader_def WriteBody_def Let_def BlockHash_def BlockBody_def)

lemma heads_writeBlockData:
  "currentBlock (writeBlockData b td s) = currentBlock s"
  "canonical (writeBlockData b td s) = canonical s"
  "headBlockHash (writeBlockData b td s) = headBlockHash s"
  by (simp_all add: writeBlockData_def WriteTd_def db_WriteBlock_def WriteHeader_def
      WriteBody_def Let_def)

lemma heads_insertBlock:
  "currentBlock (insertBlock b s) = Some b"
  "canonical (insertBlock b s) (NumberU64 b) = Some (BlockHash b)"
  "headBlockHash (insertBlock b s) = BlockHash b"
  by (simp_all add: insertBlock_def Let_def WriteCanonicalHash_def WriteHeadBlockHash_def
      WriteHeadFastBlockHash_def SetCurrentHeader_def WriteHeadHeaderHash_def)

lemma forkChain_walk_B2:
  "reorgWalk 5 forkChain blkA1 blkB2 =
     Return (Inr (blkG, \<lparr>newChain = [blkB2, blkB1], oldChain = [blkA1], deletedTxs = [],
                         deletedLogs = [], deletedLogsByHash = Map.empty\<rparr>))"
  using forkChain_blocks
  by (simp add: reorgWalk_def blk_defs emptyAcc_def dropOld_def collectLogs_def forkChain_receipts)

lemma forkChain_walk_T1:
  "reorgWalk 5 forkChain blkA1 blkT1 =
     Return (Inr (blkG, \<lparr>newChain = [blkT1], oldChain = [blkA1], deletedTxs = [],
                         deletedLogs = [], deletedLogsByHash = Map.empty\<rparr>))"
  using forkChain_blocks
  by (simp add: reorgWalk_def blk_defs emptyAcc_def dropOld_def collectLogs_def forkChain_receipts)

lemma sint_add_30:
  assumes "sint (x :: 64 word) \<le> 2 ^ 63 - 31"
  shows "sint (x + 30) = sint x + 30"
proof -
  have lo: "- (2 ^ 63) \<le> sint x" using sint_ge [of x] by simp
  have "sint (x + 30) = signed_take_bit 63 (sint x + sint (30 :: 64 word))"
    by (simp add: sint_word_ariths)
  also have "sint (30 :: 64 word) = 30" by simp
  also have "signed_take_bit 63 (sint x + 30) = sint x + 30"
    using lo assms by (intro signed_take_bit_int_eq_self) auto
  finally show ?thesis .
qed

lemma lruAdd_contains: "0 < cap \<Longrightarrow> lruContains k (lruAdd cap k v c)"
  by (cases cap) (auto simp: lruContains_def lruAdd_def)

lemma lruAdd_length: "length (lruAdd cap k v c) \<le> max cap (length c)"
proof (cases "k \<in> fst ` set c")
  case True
  then obtain e where e: "e \<in> set c" "fst e = k" by auto
  then have "length (filter (\<lambda>e. fst e \<noteq> k) c) < length c"
    by (intro length_filter_less [of e]) auto
  with True show ?thesis by (simp add: lruAdd_def)
next
  case False
  then show ?thesis by (simp add: lruAdd_def)
qed

lemma initLocals_one:
  "nonceChecked (initLocals (answering e) [b]) = [False]"
  "nonceResults (initLocals (answering e) [b]) = [(0, True)]"
  "events (initLocals (answering e) [b]) = []"
  "coalescedLogs (initLocals (answering e) [b]) = []"
  by (simp_all add: initLocals_def answering_def quietEnv_def)

lemma answering_fields:
  "HeaderCheck (answering e) h = None"
  "ValidateBlock (answering e) s b = Some e"
  "unixNow (answering e) i = 1000"
  by (simp_all add: answering_def quietEnv_def)

lemma stamped_fields [simp]:
  "BlockHash (stamped t b) = BlockHash b"
  "ParentHash (stamped t b) = ParentHash b"
  "NumberU64 (stamped t b) = NumberU64 b"
  "BlockTime (stamped t b) = t"
  by (simp_all add: stamped_def BlockHash_def ParentHash_def NumberU64_def BlockTime_def)

lemma sameStore_refl [simp]: "sameStore s s"
  by (simp add: sameStore_def)

lemma sameStore_trans: "sameStore s2 s1 \<Longrightarrow> sameStore s1 s \<Longrightarrow> sameStore s2 s"
  by (simp add: sameStore_def)

lemma sameStore_lookups:
  "sameStore s' s \<Longrightarrow> GetHeader s' = GetHeader s"
  "sameStore s' s \<Longrightarrow> GetBlock s' = GetBlock s"
  by (rule ext, simp add: sameStore_def GetHeader_def GetBlock_def GetBody_def
      split: option.splits)+

lemma andThen_Return:
  "andThen x f = Return y \<longleftrightarrow> (\<exists>a. x = Return a \<and> f a = Return y)"
  by (cases x) (simp_all add: andThen_def)

lemma andThen_simps [simp]:
  "andThen (Return a) f = f a"
  "andThen Panic f = Panic"
  "andThen Blocked f = Blocked"
  "andThen OutOfFuel f = OutOfFuel"
  by (simp_all add: andThen_def)

lemma rollbackHeader_sameStore: "rollbackHeader h s = Return s' \<Longrightarrow> sameStore s' s"
  by (auto simp: rollbackHeader_def sameStore_def SetCurrentHeader_def WriteHeadHeaderHash_def
      split: if_splits option.splits)

lemma rollbackFast_sameStore: "rollbackFast h s = Return s' \<Longrightarrow> sameStore s' s"
  by (auto simp: rollbackFast_def sameStore_def WriteHeadFastBlockHash_def
      split: if_splits option.splits)

lemma rollbackBlock_sameStore: "rollbackBlock h s = Return s' \<Longrightarrow> sameStore s' s"
  by (auto simp: rollbackBlock_def sameStore_def WriteHeadBlockHash_def
      split: if_splits option.splits)

lemma rollbackOne_sameStore:
  assumes "rollbackOne h s = Return s'"
  shows "sameStore s' s"
proof -
  from assms obtain s1 s2 where
    "rollbackHeader h s = Return s1" "rollbackFast h s1 = Return s2" "rollbackBlock h s2 = Return s'"
    by (auto simp: rollbackOne_def andThen_Return)
  then show ?thesis
    by (blast intro: sameStore_trans rollbackHeader_sameStore rollbackFast_sameStore
        rollbackBlock_sameStore)
qed

lemma rollbackLoop_sameStore:
  "rollbackLoop chain n s = Return s' \<Longrightarrow> sameStore s' s"
proof (induction n arbitrary: s)
  case 0
  then show ?case by simp
next
  case (Suc n)
  then obtain s1 where a: "rollbackOne (chain ! n) s = Return s1"
    and b: "rollbackLoop chain n s1 = Return s'"
    by (auto simp: andThen_Return split: if_splits)
  from Suc.IH [OF b] rollbackOne_sameStore [OF a] show ?case
    by (rule sameStore_trans)
qed

lemma rollbackLoop_prefix:
  "n \<le> length chain \<Longrightarrow> rollbackLoop (chain @ ys) n s = rollbackLoop chain n s"
proof (induction n arbitrary: s)
  case 0
  then show ?case by simp
next
  case (Suc n)
  then have "n < length chain" by simp
  with Suc.IH show ?case by (simp add: nth_append andThen_def split: outcome.splits)
qed

lemma rollbackOne_mu: "rollbackOne h s = Return s' \<Longrightarrow> mu s' = mu s"
  using rollbackOne_sameStore [of h s s'] by (simp add: sameStore_def)

lemma Rollback_snoc:
  assumes "\<not> mu s"
  shows "Rollback s (chain @ [h]) = andThen (rollbackOne h s) (\<lambda>s1. Rollback s1 chain)"
proof (cases "rollbackOne h s")
  case (Return s1)
  with rollbackOne_mu [OF Return] assms show ?thesis
    by (simp add: Rollback_def rollbackLoop_prefix)
qed (use assms in \<open>simp_all add: Rollback_def\<close>)

text \<open>The pointers after one hash.\<close>

lemma rollbackOne_pointers:
  assumes r: "rollbackOne h s = Return s'"
  shows "(if h_hash (hc_currentHeader s) = h
          then GetHeader s (h_parentHash (hc_currentHeader s)) = Some (hc_currentHeader s')
               \<and> headHeaderHash s' = h_hash (hc_currentHeader s')
          else hc_currentHeader s' = hc_currentHeader s \<and> headHeaderHash s' = headHeaderHash s)"
    and "\<exists>fb. currentFastBlock s = Some fb
          \<and> (if BlockHash fb = h
              then \<exists>p. GetBlock s (ParentHash fb) = Some p \<and> currentFastBlock s' = Some p
                       \<and> headFastBlockHash s' = BlockHash p
              else currentFastBlock s' = Some fb \<and> headFastBlockHash s' = headFastBlockHash s)"
    and "\<exists>cb. currentBlock s = Some cb
          \<and> (if BlockHash cb = h
              then \<exists>p. GetBlock s (ParentHash cb) = Some p \<and> currentBlock s' = Some p
                       \<and> headBlockHash s' = BlockHash p
              else currentBlock s' = Some cb \<and> headBlockHash s' = headBlockHash s)"
proof -
  from r obtain s1 s2 where
    a: "rollbackHeader h s = Return s1" and b: "rollbackFast h s1 = Return s2"
    and c: "rollbackBlock h s2 = Return s'"
    by (auto simp: rollbackOne_def andThen_Return)
  have g1: "GetBlock s1 = GetBlock s" "GetBlock s2 = GetBlock s"
    using rollbackHeader_sameStore [OF a] rollbackFast_sameStore [OF b]
    by (auto dest: sameStore_lookups sameStore_trans)
  have h1: "currentFastBlock s1 = currentFastBlock s" "currentBlock s1 = currentBlock s"
    "headFastBlockHash s1 = headFastBlockHash s" "headBlockHash s1 = headBlockHash s"
    using a by (auto simp: rollbackHeader_def SetCurrentHeader_def WriteHeadHeaderHash_def
        split: if_splits option.splits)
  have h2: "hc_currentHeader s2 = hc_currentHeader s1" "headHeaderHash s2 = headHeaderHash s1"
    "currentBlock s2 = currentBlock s1" "headBlockHash s2 = headBlockHash s1"
    using b by (auto simp: rollbackFast_def WriteHeadFastBlockHash_def
        split: if_splits option.splits)
  have h3: "hc_currentHeader s' = hc_currentHeader s2" "headHeaderHash s' = headHeaderHash s2"
    "currentFastBlock s' = currentFastBlock s2" "headFastBlockHash s' = headFastBlockHash s2"
    using c by (auto simp: rollbackBlock_def WriteHeadBlockHash_def
        split: if_splits option.splits)
  show "(if h_hash (hc_currentHeader s) = h
          then GetHeader s (h_parentHash (hc_currentHeader s)) = Some (hc_currentHeader s')
               \<and> headHeaderHash s' = h_hash (hc_currentHeader s')
          else hc_currentHeader s' = hc_currentHeader s \<and> headHeaderHash s' = headHeaderHash s)"
    using a h2 h3
    by (auto simp: rollbackHeader_def SetCurrentHeader_def WriteHeadHeaderHash_def
        split: if_splits option.splits)
  show "\<exists>fb. currentFastBlock s = Some fb
          \<and> (if BlockHash fb = h
              then \<exists>p. GetBlock s (ParentHash fb) = Some p \<and> currentFastBlock s' = Some p
                       \<and> headFastBlockHash s' = BlockHash p
              else currentFastBlock s' = Some fb \<and> headFastBlockHash s' = headFastBlockHash s)"
    using b h1 h3 g1
    by (auto simp: rollbackFast_def WriteHeadFastBlockHash_def split: if_splits option.splits)
  show "\<exists>cb. currentBlock s = Some cb
          \<and> (if BlockHash cb = h
              then \<exists>p. GetBlock s (ParentHash cb) = Some p \<and> currentBlock s' = Some p
                       \<and> headBlockHash s' = BlockHash p
              else currentBlock s' = Some cb \<and> headBlockHash s' = headBlockHash s)"
    using c h1 h2 g1
    by (auto simp: rollbackBlock_def WriteHeadBlockHash_def split: if_splits option.splits)
qed

text \<open>One hash is rolled back without a panic when the parents it needs are stored.\<close>

lemma rollbackOne_returns:
  assumes "h_hash (hc_currentHeader s) = h \<longrightarrow> GetHeader s (h_parentHash (hc_currentHeader s)) \<noteq> None"
    and "currentFastBlock s = Some fb" and "BlockHash fb = h \<longrightarrow> GetBlock s (ParentHash fb) \<noteq> None"
    and "currentBlock s = Some cb" and "BlockHash cb = h \<longrightarrow> GetBlock s (ParentHash cb) \<noteq> None"
  shows "\<exists>s'. rollbackOne h s = Return s'"
proof -
  have "\<exists>s1. rollbackHeader h s = Return s1"
    using assms(1) by (cases "h_hash (hc_currentHeader s) = h") (auto simp: rollbackHeader_def)
  then obtain s1 where a: "rollbackHeader h s = Return s1" ..
  have s1: "currentFastBlock s1 = Some fb" "currentBlock s1 = Some cb" "GetBlock s1 = GetBlock s"
    using a assms(2,4) rollbackHeader_sameStore [OF a]
    by (auto simp: rollbackHeader_def SetCurrentHeader_def WriteHeadHeaderHash_def
        dest: sameStore_lookups split: if_splits option.splits)
  have "\<exists>s2. rollbackFast h s1 = Return s2"
    using assms(3) s1 by (cases "BlockHash fb = h") (auto simp: rollbackFast_def)
  then obtain s2 where b: "rollbackFast h s1 = Return s2" ..
  have s2: "currentBlock s2 = Some cb" "GetBlock s2 = GetBlock s"
    using b s1 rollbackFast_sameStore [OF b]
    by (auto simp: rollbackFast_def WriteHeadFastBlockHash_def
        dest: sameStore_lookups split: if_splits option.splits)
  have "\<exists>s3. rollbackBlock h s2 = Return s3"
    using assms(5) s2 by (cases "BlockHash cb = h") (auto simp: rollbackBlock_def)
  then obtain s3 where c: "rollbackBlock h s2 = Return s3" ..
  from a b c show ?thesis by (simp add: rollbackOne_def)
qed


lemma forkChain_pointers:
  "hc_currentHeader forkChain = b_header blkA1"
  "currentFastBlock forkChain = Some blkA1"
  "currentBlock forkChain = Some blkA1"
  "mu forkChain = False"
  "GetHeader forkChain 10 = Some (b_header blkG)"
  "GetHeader forkChain 0 = None"
  by (simp_all add: forkChain_def GetHeader_def)

lemma GetBlock_cong:
  "headers s' = headers s \<Longrightarrow> bodies s' = bodies s \<Longrightarrow> GetBlock s' = GetBlock s"
  by (rule ext) (simp add: GetBlock_def GetHeader_def GetBody_def split: option.splits)

lemma pointer_updates_keep_store [simp]:
  "GetBlock (SetCurrentHeader p s) = GetBlock s"
  "GetBlock (WriteHeadFastBlockHash h s) = GetBlock s"
  "GetBlock (WriteHeadBlockHash h s) = GetBlock s"
  "GetBlock (s\<lparr>currentFastBlock := fb\<rparr>) = GetBlock s"
  "GetBlock (s\<lparr>currentBlock := cb\<rparr>) = GetBlock s"
  by (rule GetBlock_cong; simp add: SetCurrentHeader_def
      WriteHeadHeaderHash_def WriteHeadFastBlockHash_def WriteHeadBlockHash_def)+

lemma SetCurrentHeader_keeps_headers [simp]:
  "GetHeader (SetCurrentHeader p s) = GetHeader s"
  by (rule ext) (simp add: GetHeader_def SetCurrentHeader_def WriteHeadHeaderHash_def)

lemma rolledBack_pointers:
  "hc_currentHeader rolledBack = b_header blkG"
  "currentFastBlock rolledBack = Some blkG"
  "currentBlock rolledBack = Some blkG"
  "GetHeader rolledBack = GetHeader forkChain"
  "GetBlock rolledBack = GetBlock forkChain"
proof -
  show "GetHeader rolledBack = GetHeader forkChain"
    by (rule ext) (simp add: GetHeader_def rolledBack_def)
  show "GetBlock rolledBack = GetBlock forkChain"
    by (rule GetBlock_cong) (simp_all add: rolledBack_def)
qed (simp_all add: rolledBack_def)

lemma mkBlock_header [simp]:
  "h_hash (b_header (mkBlock h p n d)) = h"
  "h_parentHash (b_header (mkBlock h p n d)) = p"
  "h_number (b_header (mkBlock h p n d)) = n"
  by (simp_all add: mkBlock_def mkHeader_def)

lemma blkG_parent: "h_parentHash (b_header blkG) = 0" "h_hash (b_header blkG) = 10"
  "h_parentHash (b_header blkA1) = 10" "h_hash (b_header blkA1) = 11"
  by (simp_all add: blk_defs mkBlock_def mkHeader_def)

lemma GetBlock_forkChain_0: "GetBlock forkChain 0 = None"
  by (simp add: GetBlock_def GetHeader_def forkChain_def)

lemma forkChain_sel:
  "headers forkChain = [10 \<mapsto> b_header blkG, 11 \<mapsto> b_header blkA1, 12 \<mapsto> b_header blkB1]"
  "bodies forkChain = [10 \<mapsto> emptyBody, 11 \<mapsto> emptyBody, 12 \<mapsto> emptyBody]"
  "tds forkChain = [10 \<mapsto> 10, 11 \<mapsto> 20, 12 \<mapsto> 18, 14 \<mapsto> 40]"
  "canonical forkChain = [0 \<mapsto> 10, 1 \<mapsto> 11]"
  "headBlockHash forkChain = 11" "headHeaderHash forkChain = 11" "headFastBlockHash forkChain = 11"
  "blockReceipts forkChain = Map.empty" "txLookup forkChain = Map.empty"
  "txReceipts forkChain = Map.empty" "mipmapBloom forkChain = Map.empty"
  "stateRoots forkChain = {10, 11}"
  "genesisBlock forkChain = blkG" "hc_genesisHeader forkChain = b_header blkG"
  "hc_currentHeader forkChain = b_header blkA1"
  "currentBlock forkChain = Some blkA1" "currentFastBlock forkChain = Some blkA1"
  "futureBlocks forkChain = []" "procInterrupt forkChain = False" "mu forkChain = False"
  "stateCache forkChain = Some 11" "goroutines forkChain = []"
  by (simp_all add: forkChain_def)

lemmas lookup_defs = GetBlock_def GetHeader_def GetBody_def GetTd_def GetCanonicalHash_def
  GetBlockByNumber_def GetBlockReceipts_def HasHeader_def HasBlock_def stateNew_def

lemmas write_defs = SetCurrentHeader_def WriteHeadHeaderHash_def WriteHeadFastBlockHash_def
  WriteHeadBlockHash_def WriteCanonicalHash_def WriteTd_def WriteBody_def WriteHeader_def
  db_WriteBlock_def WriteBlockReceipts_def WriteTransactions_def WriteReceipts_def
  WriteMipmapBloom_def DeleteBody_def DeleteReceipt_def DeleteTransaction_def

lemma rollbackOne_forkChain:
  "rollbackOne 10 forkChain = Return forkChain"
  "rollbackOne 11 forkChain = Return rolledBack"
  "rollbackOne 10 rolledBack = Panic"
proof -
  show "rollbackOne 10 forkChain = Return forkChain"
    by (simp add: rollbackOne_def rollbackHeader_def rollbackFast_def rollbackBlock_def
        forkChain_sel blk_defs)
  have "rollbackOne 11 forkChain =
          Return (forkChain\<lparr>headHeaderHash := 10, hc_currentHeader := b_header blkG,
                    currentFastBlock := Some blkG, headFastBlockHash := 10,
                    currentBlock := Some blkG, headBlockHash := 10\<rparr>)"
    by (simp add: rollbackOne_def rollbackHeader_def rollbackFast_def rollbackBlock_def
        forkChain_sel blk_defs write_defs lookup_defs mkBlock_def mkHeader_def emptyBody_def
        BlockHash_def ParentHash_def)
  also have "forkChain\<lparr>headHeaderHash := 10, hc_currentHeader := b_header blkG,
                    currentFastBlock := Some blkG, headFastBlockHash := 10,
                    currentBlock := Some blkG, headBlockHash := 10\<rparr> = rolledBack"
    by (simp add: rolledBack_def forkChain_def)
  finally show "rollbackOne 11 forkChain = Return rolledBack" .
  show "rollbackOne 10 rolledBack = Panic"
    by (simp add: rollbackOne_def rollbackHeader_def rolledBack_pointers blkG_parent
        forkChain_sel lookup_defs)
qed

lemma stampLogs_length [simp]: "length (stampLogs b th j li ls) = length ls"
  by (induction ls arbitrary: li) simp_all

lemma stampLogs_nth:
  "k < length ls \<Longrightarrow>
   stampLogs b th j li ls ! k =
     (ls ! k)\<lparr>l_blockNumber := NumberU64 b, l_blockHash := BlockHash b, l_txHash := th,
              l_txIndex := j, l_index := li + k\<rparr>"
proof (induction ls arbitrary: li k)
  case Nil
  then show ?case by simp
next
  case (Cons l ls)
  then show ?case by (cases k) simp_all
qed

lemma stampLogs_index: "map l_index (stampLogs b th j li ls) = [li ..< li + length ls]"
proof (induction ls arbitrary: li)
  case Nil
  then show ?case by simp
next
  case (Cons l ls)
  have "[li ..< li + length (l # ls)] = li # [Suc li ..< Suc li + length ls]"
    by (subst upt_rec) simp
  with Cons show ?case by simp
qed

lemma derivedAt_fields [simp]:
  "r_txHash (derivedAt env b j prev li r) = tx_hash (b_transactions b ! j)"
  "r_contractAddress (derivedAt env b j prev li r) =
     (if MessageCreatesContract env (b_transactions b ! j)
      then CreateAddress env (Sender env (NumberU64 b) (b_transactions b ! j))
             (tx_nonce (b_transactions b ! j))
      else r_contractAddress r)"
  "r_gasUsed (derivedAt env b j prev li r) =
     (if j = 0 then r_cumulativeGasUsed r else r_cumulativeGasUsed r - prev)"
  "r_cumulativeGasUsed (derivedAt env b j prev li r) = r_cumulativeGasUsed r"
  "r_logs (derivedAt env b j prev li r) = stampLogs b (tx_hash (b_transactions b ! j)) j li (r_logs r)"
  by (simp_all add: derivedAt_def)

lemma deriveReceipts_Cons:
  "deriveReceipts env b j prev li (r # rs) = Return rs' \<longleftrightarrow>
     j < length (b_transactions b)
     \<and> (\<exists>rest. deriveReceipts env b (Suc j) (r_cumulativeGasUsed r) (li + length (r_logs r)) rs
                  = Return rest
               \<and> rs' = derivedAt env b j prev li r # rest)"
  by (auto simp: Let_def andThen_def derivedAt_def split: outcome.splits)

lemma deriveReceipts_length:
  "deriveReceipts env b j prev li rs = Return rs' \<Longrightarrow>
     length rs' = length rs \<and> (rs \<noteq> [] \<longrightarrow> j + length rs \<le> length (b_transactions b))"
proof (induction rs arbitrary: j prev li rs')
  case Nil
  then show ?case by simp
next
  case (Cons r rs)
  from Cons.prems [unfolded deriveReceipts_Cons]
  obtain rest where j: "j < length (b_transactions b)"
    and r: "deriveReceipts env b (Suc j) (r_cumulativeGasUsed r) (li + length (r_logs r)) rs
              = Return rest"
    and e: "rs' = derivedAt env b j prev li r # rest"
    by auto
  from Cons.IH [OF r] e j show ?case by (cases rs) auto
qed

lemma deriveReceipts_nth:
  "deriveReceipts env b j prev li rs = Return rs' \<Longrightarrow> k < length rs \<Longrightarrow>
     rs' ! k =
       derivedAt env b (j + k)
         (if k = 0 then prev else r_cumulativeGasUsed (rs ! (k - 1)))
         (li + length (concat (map r_logs (take k rs))))
         (rs ! k)"
proof (induction rs arbitrary: j prev li rs' k)
  case Nil
  then show ?case by simp
next
  case (Cons r rs)
  from Cons.prems(1) [unfolded deriveReceipts_Cons]
  obtain rest where
    r: "deriveReceipts env b (Suc j) (r_cumulativeGasUsed r) (li + length (r_logs r)) rs
              = Return rest"
    and e: "rs' = derivedAt env b j prev li r # rest"
    by auto
  show ?case
  proof (cases k)
    case 0
    with e show ?thesis by simp
  next
    case (Suc k')
    with Cons.prems(2) have k': "k' < length rs" by simp
    from Cons.IH [OF r k'] e Suc show ?thesis
      by (cases k') (simp_all add: add.assoc)
  qed
qed

lemma deriveReceipts_index:
  "deriveReceipts env b j prev li rs = Return rs' \<Longrightarrow>
     map l_index (concat (map r_logs rs')) = [li ..< li + length (concat (map r_logs rs))]"
proof (induction rs arbitrary: j prev li rs')
  case Nil
  then show ?case by simp
next
  case (Cons r rs)
  from Cons.prems [unfolded deriveReceipts_Cons]
  obtain rest where
    r: "deriveReceipts env b (Suc j) (r_cumulativeGasUsed r) (li + length (r_logs r)) rs
              = Return rest"
    and e: "rs' = derivedAt env b j prev li r # rest"
    by auto
  have "[li ..< li + length (r_logs r) + length (concat (map r_logs rs))]
        = [li ..< li + length (r_logs r)]
          @ [li + length (r_logs r) ..< li + length (r_logs r) + length (concat (map r_logs rs))]"
    using upt_add_eq_append [of li "li + length (r_logs r)" "length (concat (map r_logs rs))"]
    by simp
  with Cons.IH [OF r] e show ?case
    by (simp add: stampLogs_index add.assoc)
qed

lemma deriveReceipts_returns:
  "j + length rs \<le> length (b_transactions b) \<Longrightarrow> \<exists>rs'. deriveReceipts env b j prev li rs = Return rs'"
proof (induction rs arbitrary: j prev li)
  case Nil
  then show ?case by simp
next
  case (Cons r rs)
  then have "Suc j + length rs \<le> length (b_transactions b)" by simp
  from Cons.IH [OF this] obtain rest where
    "deriveReceipts env b (Suc j) (r_cumulativeGasUsed r) (li + length (r_logs r)) rs = Return rest"
    by blast
  moreover have "j < length (b_transactions b)" using Cons.prems by simp
  ultimately show ?case unfolding deriveReceipts_Cons by simp
qed

lemma deriveReceipts_derivedFrom:
  assumes "deriveReceipts env b 0 0 0 rs = Return rs'"
  shows "derivedFrom env b rs rs'"
proof -
  note len = deriveReceipts_length [OF assms]
  have idx: "map l_index (concat (map r_logs rs')) = [0 ..< length (concat (map r_logs rs))]"
    using deriveReceipts_index [OF assms] by simp
  have each: "\<forall>j < length rs. j < length (b_transactions b)
            \<and> r_txHash (rs' ! j) = tx_hash (b_transactions b ! j)
            \<and> r_contractAddress (rs' ! j)
                = (if MessageCreatesContract env (b_transactions b ! j)
                   then CreateAddress env (Sender env (NumberU64 b) (b_transactions b ! j))
                          (tx_nonce (b_transactions b ! j))
                   else r_contractAddress (rs ! j))
            \<and> r_gasUsed (rs' ! j)
                = (if j = 0 then r_cumulativeGasUsed (rs ! 0)
                   else r_cumulativeGasUsed (rs ! j) - r_cumulativeGasUsed (rs ! (j - 1)))
            \<and> r_cumulativeGasUsed (rs' ! j) = r_cumulativeGasUsed (rs ! j)
            \<and> length (r_logs (rs' ! j)) = length (r_logs (rs ! j))
            \<and> (\<forall>k < length (r_logs (rs ! j)).
                  l_blockNumber (r_logs (rs' ! j) ! k) = NumberU64 b
                  \<and> l_blockHash (r_logs (rs' ! j) ! k) = BlockHash b
                  \<and> l_txHash (r_logs (rs' ! j) ! k) = r_txHash (rs' ! j)
                  \<and> l_txIndex (r_logs (rs' ! j) ! k) = j
                  \<and> l_address (r_logs (rs' ! j) ! k) = l_address (r_logs (rs ! j) ! k)
                  \<and> l_topics (r_logs (rs' ! j) ! k) = l_topics (r_logs (rs ! j) ! k)
                  \<and> l_data (r_logs (rs' ! j) ! k) = l_data (r_logs (rs ! j) ! k))"
  proof (intro allI impI)
    fix j assume j: "j < length rs"
    have ne: "rs \<noteq> []" using j by auto
    have jt: "j < length (b_transactions b)" using len ne j by simp
    define prev where "prev = (if j = 0 then 0 else r_cumulativeGasUsed (rs ! (j - 1)))"
    define li where "li = length (concat (map r_logs (take j rs)))"
    have e: "rs' ! j = derivedAt env b j prev li (rs ! j)"
      using deriveReceipts_nth [OF assms j] by (simp add: prev_def li_def)
    show "j < length (b_transactions b)
            \<and> r_txHash (rs' ! j) = tx_hash (b_transactions b ! j)
            \<and> r_contractAddress (rs' ! j)
                = (if MessageCreatesContract env (b_transactions b ! j)
                   then CreateAddress env (Sender env (NumberU64 b) (b_transactions b ! j))
                          (tx_nonce (b_transactions b ! j))
                   else r_contractAddress (rs ! j))
            \<and> r_gasUsed (rs' ! j)
                = (if j = 0 then r_cumulativeGasUsed (rs ! 0)
                   else r_cumulativeGasUsed (rs ! j) - r_cumulativeGasUsed (rs ! (j - 1)))
            \<and> r_cumulativeGasUsed (rs' ! j) = r_cumulativeGasUsed (rs ! j)
            \<and> length (r_logs (rs' ! j)) = length (r_logs (rs ! j))
            \<and> (\<forall>k < length (r_logs (rs ! j)).
                  l_blockNumber (r_logs (rs' ! j) ! k) = NumberU64 b
                  \<and> l_blockHash (r_logs (rs' ! j) ! k) = BlockHash b
                  \<and> l_txHash (r_logs (rs' ! j) ! k) = r_txHash (rs' ! j)
                  \<and> l_txIndex (r_logs (rs' ! j) ! k) = j
                  \<and> l_address (r_logs (rs' ! j) ! k) = l_address (r_logs (rs ! j) ! k)
                  \<and> l_topics (r_logs (rs' ! j) ! k) = l_topics (r_logs (rs ! j) ! k)
                  \<and> l_data (r_logs (rs' ! j) ! k) = l_data (r_logs (rs ! j) ! k))"
      unfolding e using jt by (simp add: stampLogs_nth prev_def)
  qed
  from len have A: "length rs' = length rs" by simp
  show ?thesis
    unfolding derivedFrom_def by (rule conjI [OF A conjI [OF each idx]])
qed


lemma receiptTask_cases:
  "receiptTask env s b rs = Return t \<Longrightarrow>
     (t = TaskStopped \<and> procInterrupt s)
     \<or> (\<exists>e. t = TaskFailed e \<and> \<not> procInterrupt s)
     \<or> (t = TaskIgnored \<and> \<not> procInterrupt s \<and> HasBlock s (BlockHash b))
     \<or> (\<exists>s' rs'. t = TaskProcessed s' \<and> \<not> procInterrupt s \<and> \<not> HasBlock s (BlockHash b)
            \<and> HasHeader s (BlockHash b)
            \<and> deriveReceipts env b 0 0 0 rs = Return rs'
            \<and> s' = WriteReceipts rs'
                      (WriteTransactions b
                        (WriteMipmapBloom (NumberU64 b) rs'
                          (WriteBlockReceipts (BlockHash b) rs'
                            (WriteBody (BlockHash b) (BlockBody b) s)))))"
  by (auto simp: receiptTask_def andThen_Return split: if_splits)

lemma task_writes:
  fixes s :: blockchain and rs' :: "receipt list" and b :: block and n :: "64 word"
    and h :: hash and bd :: body
  defines "s' \<equiv> WriteReceipts rs'
                      (WriteTransactions b
                        (WriteMipmapBloom n rs'
                          (WriteBlockReceipts h rs'
                            (WriteBody h bd s))))"
  shows "blockReceipts s' = (blockReceipts s)(h \<mapsto> rs')"
    and "procInterrupt s' = procInterrupt s"
    and "headers s' = headers s"
    and "bodies s' = (bodies s)(h \<mapsto> bd)"
    and "mu s' = mu s"
  by (simp_all add: s'_def WriteReceipts_def WriteTransactions_def WriteMipmapBloom_def
      WriteBlockReceipts_def WriteBody_def)

lemma task_keeps_other_blocks:
  fixes s :: blockchain
  assumes "h' \<noteq> h"
  shows "HasBlock (WriteReceipts rs'
                      (WriteTransactions b
                        (WriteMipmapBloom n rs'
                          (WriteBlockReceipts h rs'
                            (WriteBody h bd s))))) h' = HasBlock s h'"
  using assms
  by (simp add: HasBlock_def GetBlock_def GetHeader_def GetBody_def task_writes
      split: option.splits)

lemma runTasks_keeps_receipts:
  "runTasks env i tasks s st = Return (s', st', f) \<Longrightarrow>
     h \<notin> BlockHash ` fst ` set tasks \<Longrightarrow>
     blockReceipts s' h = blockReceipts s h \<and> procInterrupt s' = procInterrupt s
     \<and> mu s' = mu s"
proof (induction tasks arbitrary: i s st)
  case Nil
  then show ?case by simp
next
  case (Cons t tasks)
  obtain b rs where t: "t = (b, rs)" by (cases t)
  from Cons.prems(1) t obtain r where r: "receiptTask env s b rs = Return r"
    and k: "(case r of
           TaskStopped \<Rightarrow> Return (s, st, None)
         | TaskFailed e \<Rightarrow> Return (s, st, Some (i, e))
         | TaskIgnored \<Rightarrow> runTasks env (Suc i) tasks s (st\<lparr>rs_ignored := Suc (rs_ignored st)\<rparr>)
         | TaskProcessed s1 \<Rightarrow>
             runTasks env (Suc i) tasks s1 (st\<lparr>rs_processed := Suc (rs_processed st)\<rparr>))
         = Return (s', st', f)"
    by (auto simp: andThen_Return)
  from Cons.prems(2) t have hb: "h \<noteq> BlockHash b" and ht: "h \<notin> BlockHash ` fst ` set tasks"
    by auto
  show ?case
  proof (cases r)
    case TaskStopped
    with k show ?thesis by simp
  next
    case (TaskFailed e)
    with k show ?thesis by simp
  next
    case TaskIgnored
    with k Cons.IH [OF _ ht] show ?thesis by simp
  next
    case (TaskProcessed s1)
    with receiptTask_cases [OF r] obtain rs' where
      s1: "s1 = WriteReceipts rs'
                      (WriteTransactions b
                        (WriteMipmapBloom (NumberU64 b) rs'
                          (WriteBlockReceipts (BlockHash b) rs'
                            (WriteBody (BlockHash b) (BlockBody b) s))))"
      by auto
    from TaskProcessed k
    have "runTasks env (Suc i) tasks s1 (st\<lparr>rs_processed := Suc (rs_processed st)\<rparr>)
            = Return (s', st', f)" by simp
    from Cons.IH [OF this ht] hb show ?thesis
      by (simp add: s1 task_writes)
  qed
qed

lemma runTasks_receipts:
  "runTasks env i tasks s st = Return (s', st', None) \<Longrightarrow> \<not> procInterrupt s \<Longrightarrow>
     distinct (map (BlockHash \<circ> fst) tasks) \<Longrightarrow> (b, rs) \<in> set tasks \<Longrightarrow>
     \<not> HasBlock s (BlockHash b) \<Longrightarrow>
     \<exists>rs'. deriveReceipts env b 0 0 0 rs = Return rs' \<and> blockReceipts s' (BlockHash b) = Some rs'"
proof (induction tasks arbitrary: i s st)
  case Nil
  then show ?case by simp
next
  case (Cons t tasks)
  obtain b0 rs0 where t: "t = (b0, rs0)" by (cases t)
  from Cons.prems(1) t obtain r where r: "receiptTask env s b0 rs0 = Return r"
    and k: "(case r of
           TaskStopped \<Rightarrow> Return (s, st, None)
         | TaskFailed e \<Rightarrow> Return (s, st, Some (i, e))
         | TaskIgnored \<Rightarrow> runTasks env (Suc i) tasks s (st\<lparr>rs_ignored := Suc (rs_ignored st)\<rparr>)
         | TaskProcessed s1 \<Rightarrow>
             runTasks env (Suc i) tasks s1 (st\<lparr>rs_processed := Suc (rs_processed st)\<rparr>))
         = Return (s', st', None)"
    by (auto simp: andThen_Return)
  from Cons.prems(3) t have d: "distinct (map (BlockHash \<circ> fst) tasks)"
    by (simp add: comp_def)
  from Cons.prems(3) t have nb0: "BlockHash b0 \<notin> BlockHash ` fst ` set tasks"
    by (simp add: image_image comp_def)
  show ?case
  proof (cases r)
    case TaskStopped
    with receiptTask_cases [OF r] Cons.prems(2) show ?thesis by simp
  next
    case (TaskFailed e)
    with k show ?thesis by simp
  next
    case TaskIgnored
    with receiptTask_cases [OF r] have known: "HasBlock s (BlockHash b0)" by simp
    with Cons.prems(4,5) t have "(b, rs) \<in> set tasks" by auto
    with TaskIgnored k Cons.IH [OF _ Cons.prems(2) d _ Cons.prems(5)] show ?thesis by simp
  next
    case (TaskProcessed s1)
    with receiptTask_cases [OF r] obtain rs0' where
      dr: "deriveReceipts env b0 0 0 0 rs0 = Return rs0'" and
      s1: "s1 = WriteReceipts rs0'
                      (WriteTransactions b0
                        (WriteMipmapBloom (NumberU64 b0) rs0'
                          (WriteBlockReceipts (BlockHash b0) rs0'
                            (WriteBody (BlockHash b0) (BlockBody b0) s))))"
      by auto
    from TaskProcessed k
    have run: "runTasks env (Suc i) tasks s1 (st\<lparr>rs_processed := Suc (rs_processed st)\<rparr>)
            = Return (s', st', None)" by simp
    have ni: "\<not> procInterrupt s1" using Cons.prems(2) by (simp add: s1 task_writes)
    show ?thesis
    proof (cases "(b, rs) = (b0, rs0)")
      case True
      from runTasks_keeps_receipts [OF run nb0]
      have "blockReceipts s' (BlockHash b0) = Some rs0'" by (simp add: s1 task_writes)
      with True dr show ?thesis by auto
    next
      case False
      with Cons.prems(4) t have m: "(b, rs) \<in> set tasks" by auto
      then have "BlockHash b \<in> BlockHash ` fst ` set tasks" by force
      with nb0 have "BlockHash b \<noteq> BlockHash b0" by metis
      then have "\<not> HasBlock s1 (BlockHash b)"
        using Cons.prems(5) unfolding s1 by (simp add: task_keeps_other_blocks)
      from Cons.IH [OF run ni d m this] show ?thesis .
    qed
  qed
qed

lemma updateFastHead_keeps_receipts:
  "updateFastHead head s = Return s' \<Longrightarrow> blockReceipts s' = blockReceipts s"
  by (auto simp: updateFastHead_def WriteHeadFastBlockHash_def split: option.splits if_splits)

lemma receiptTask_returns:
  assumes "\<not> procInterrupt s" and "HasHeader s (BlockHash b)" and "\<not> HasBlock s (BlockHash b)"
    and "length rs \<le> length (b_transactions b)"
  shows "\<exists>s' rs'. receiptTask env s b rs = Return (TaskProcessed s')
           \<and> blockReceipts s' (BlockHash b) = Some rs' \<and> derivedFrom env b rs rs'"
proof -
  from deriveReceipts_returns [of 0 rs b env 0 0] assms(4)
  obtain rs' where d: "deriveReceipts env b 0 0 0 rs = Return rs'" by auto
  from deriveReceipts_derivedFrom [OF d] d assms(1-3) show ?thesis
    by (simp add: receiptTask_def task_writes)
qed

lemma fastSync_sel:
  "headers fastSync = (headers forkChain)(20 \<mapsto> mkHeader 20 11 2 10)"
  "bodies fastSync = bodies forkChain"
  "tds fastSync = (tds forkChain)(20 \<mapsto> 30)"
  "procInterrupt fastSync = False" "mu fastSync = False"
  "currentFastBlock fastSync = Some blkA1"
  "blockReceipts fastSync = Map.empty"
  by (simp_all add: fastSync_def forkChain_sel)

lemma blkR_fields:
  "BlockHash blkR = 20" "NumberU64 blkR = 2" "b_transactions blkR = [txCreate, txCall]"
  by (simp_all add: blkR_def BlockHash_def NumberU64_def mkHeader_def)

lemma deriveReceipts_blkR:
  "deriveReceipts quietEnv blkR 0 0 0 receiptsR = Return derivedR"
  by (simp add: receiptsR_def derivedR_def rawReceipt_def blkR_fields quietEnv_def
      txCreate_def txCall_def stampedLog_def Let_def)

lemma descends_glue:
  "descends s (xs @ [y]) \<Longrightarrow> descends s (y # ys) \<Longrightarrow> descends s (xs @ y # ys)"
proof (induction xs)
  case Nil
  then show ?case by simp
next
  case (Cons x xs)
  then show ?case by (cases xs) auto
qed

lemma descends_Cons:
  "descends s (x # ys) \<longleftrightarrow> (ys = [] \<or> (GetBlock s (ParentHash x) = Some (hd ys) \<and> descends s ys))"
  by (cases ys) auto

lemma dropOld_newChain [simp]: "newChain (dropOld s ob acc) = newChain acc"
proof -
  have "\<And>acc. newChain (collectReceiptLogs h rs acc) = newChain acc" for h rs
    by (induction rs) simp_all
  then show ?thesis by (simp add: dropOld_def collectLogs_def)
qed

lemma reduceOld_newChain:
  "reduceOld k s ob nb acc = Return (ob', acc') \<Longrightarrow> newChain acc' = newChain acc"
proof (induction k arbitrary: ob acc)
  case 0
  then show ?case by simp
next
  case (Suc k)
  show ?case
  proof (cases ob)
    case None
    with Suc.prems show ?thesis by simp
  next
    case (Some b)
    with Suc.prems Suc.IH show ?thesis by (auto split: if_splits)
  qed
qed

lemma reduceNew_path:
  "reduceNew k s ob (Some nb) acc = Return (Some nb', acc') \<Longrightarrow>
     \<exists>path. newChain acc' = newChain acc @ path \<and> descends s (path @ [nb'])
            \<and> hd (path @ [nb']) = nb"
proof (induction k arbitrary: nb acc)
  case 0
  then show ?case by simp
next
  case (Suc k)
  show ?case
  proof (cases "NumberU64 nb \<noteq> NumberU64 ob")
    case False
    with Suc.prems show ?thesis by auto
  next
    case True
    with Suc.prems have r: "reduceNew k s ob (GetBlock s (ParentHash nb))
                               (acc\<lparr>newChain := newChain acc @ [nb]\<rparr>) = Return (Some nb', acc')"
      by simp
    then obtain nb1 where p: "GetBlock s (ParentHash nb) = Some nb1"
      by (cases "GetBlock s (ParentHash nb)"; cases k) auto
    from Suc.IH [OF r [unfolded p]] obtain path where
      path: "newChain acc' = (newChain acc @ [nb]) @ path" "descends s (path @ [nb'])"
        "hd (path @ [nb']) = nb1"
      by auto
    have "descends s ((nb # path) @ [nb'])"
      using path(2,3) p by (simp add: descends_Cons)
    with path(1) show ?thesis by (intro exI [of _ "nb # path"]) simp
  qed
qed

lemma findCommon_path:
  "findCommon k s ob nb acc = Return (Inr (c, acc')) \<Longrightarrow>
     \<exists>path nb'. newChain acc' = newChain acc @ path \<and> descends s (path @ [nb'])
            \<and> hd (path @ [nb']) = nb \<and> BlockHash nb' = BlockHash c"
proof (induction k arbitrary: ob nb acc)
  case 0
  then show ?case by simp
next
  case (Suc k)
  show ?case
  proof (cases "BlockHash ob = BlockHash nb")
    case True
    with Suc.prems have "c = ob" "acc' = acc" by simp_all
    with True show ?thesis by (intro exI [of _ "[]"] exI [of _ nb]) simp
  next
    case False
    with Suc.prems obtain ob1 nb1 where
      p: "GetBlock s (ParentHash nb) = Some nb1" and
      r: "findCommon k s ob1 nb1 (dropOld s ob (acc\<lparr>newChain := newChain acc @ [nb]\<rparr>))
            = Return (Inr (c, acc'))"
      by (auto simp: Let_def split: option.splits)
    from Suc.IH [OF r] obtain path nb' where
      path: "newChain acc' = (newChain acc @ [nb]) @ path" "descends s (path @ [nb'])"
        "hd (path @ [nb']) = nb1" "BlockHash nb' = BlockHash c"
      by auto
    have "descends s ((nb # path) @ [nb'])"
      using path(2,3) p by (simp add: descends_Cons)
    with path(1,4) show ?thesis by (intro exI [of _ "nb # path"] exI [of _ nb']) simp
  qed
qed

lemma reorgWalk_path:
  assumes "reorgWalk fuel s oldBlock newBlock = Return (Inr (c, acc))"
  shows "\<exists>nb'. descends s (newChain acc @ [nb']) \<and> hd (newChain acc @ [nb']) = newBlock
               \<and> BlockHash nb' = BlockHash c"
proof (cases "NumberU64 oldBlock > NumberU64 newBlock")
  case True
  with assms obtain ob acc1 where
    a: "reduceOld fuel s (Some oldBlock) newBlock emptyAcc = Return (Some ob, acc1)"
    and f: "findCommon fuel s ob newBlock acc1 = Return (Inr (c, acc))"
    by (auto simp: reorgWalk_def split: outcome.splits option.splits prod.splits)
  from reduceOld_newChain [OF a] have "newChain acc1 = []" by (simp add: emptyAcc_def)
  with findCommon_path [OF f] show ?thesis by auto
next
  case False
  with assms obtain nb acc1 where
    a: "reduceNew fuel s oldBlock (Some newBlock) emptyAcc = Return (Some nb, acc1)"
    and f: "findCommon fuel s oldBlock nb acc1 = Return (Inr (c, acc))"
    by (auto simp: reorgWalk_def split: outcome.splits option.splits prod.splits)
  from reduceNew_path [OF a] obtain path0 where
    p0: "newChain acc1 = path0" "descends s (path0 @ [nb])" "hd (path0 @ [nb]) = newBlock"
    by (auto simp: emptyAcc_def)
  from findCommon_path [OF f] obtain path1 nb' where
    p1: "newChain acc = newChain acc1 @ path1" "descends s (path1 @ [nb'])"
      "hd (path1 @ [nb']) = nb" "BlockHash nb' = BlockHash c"
    by auto
  from p1(2,3) have "descends s (nb # tl (path1 @ [nb']))"
    by (cases path1) auto
  from descends_glue [OF p0(2) this] p1(3)
  have "descends s (path0 @ path1 @ [nb'])" by (cases path1) auto
  moreover have "hd (path0 @ path1 @ [nb']) = newBlock"
    using p0(3) p1(3) by (cases path0) auto
  ultimately show ?thesis using p0(1) p1(1,4) by (intro exI [of _ nb']) simp
qed

lemma descends_stored:
  "descends s (x # xs) \<Longrightarrow> y \<in> set xs \<Longrightarrow> \<exists>h. GetBlock s h = Some y"
proof (induction xs arbitrary: x)
  case Nil
  then show ?case by simp
next
  case (Cons z zs)
  then show ?case by auto
qed

lemma descends_sorted:
  assumes "parentsLower s"
  shows "descends s (x # xs) \<Longrightarrow> lowerParent s x \<Longrightarrow>
           sorted_wrt (\<lambda>a b. NumberU64 b < NumberU64 a) (x # xs)"
proof (induction xs arbitrary: x)
  case Nil
  then show ?case by simp
next
  case (Cons z zs)
  then have p: "GetBlock s (ParentHash x) = Some z" and d: "descends s (z # zs)" by simp_all
  from p assms have lz: "lowerParent s z" by (auto simp: parentsLower_def)
  from Cons.IH [OF d lz] have sz: "sorted_wrt (\<lambda>a b. NumberU64 b < NumberU64 a) (z # zs)" .
  from p Cons.prems(2) have xz: "NumberU64 z < NumberU64 x" by (simp add: lowerParent_def)
  have "\<forall>y \<in> set (z # zs). NumberU64 y < NumberU64 x"
  proof
    fix y assume "y \<in> set (z # zs)"
    then show "NumberU64 y < NumberU64 x"
      using sz xz by (cases "y = z") (auto intro: less_trans)
  qed
  with sz show ?case by simp
qed


lemma sorted_numbers_distinct:
  "sorted_wrt (\<lambda>a b. NumberU64 b < NumberU64 a) xs \<Longrightarrow> distinct (map NumberU64 xs)"
  by (induction xs) auto

lemma walk_sorted:
  assumes "parentsLower s" and "lowerParent s newBlock"
    and "descends s (path @ [nb'])" and "hd (path @ [nb']) = newBlock"
  shows "sorted_wrt (\<lambda>a b. NumberU64 b < NumberU64 a) path"
proof -
  obtain xs where xs: "path @ [nb'] = newBlock # xs"
    using assms(4) by (cases "path @ [nb']") auto
  from descends_sorted [OF assms(1) assms(3) [unfolded xs] assms(2)] xs
  have "sorted_wrt (\<lambda>a b. NumberU64 b < NumberU64 a) (path @ [nb'])" by simp
  then show ?thesis by (simp add: sorted_wrt_append)
qed

lemma forkChain_parentsLower: "parentsLower forkChain"
  unfolding parentsLower_def lowerParent_def
  by (auto simp: lookup_defs forkChain_sel blk_defs mkBlock_def mkHeader_def ParentHash_def
      NumberU64_def split: option.splits if_splits)

lemma forkChain_lowerParent_B2: "lowerParent forkChain blkB2"
  using forkChain_blocks by (simp add: lowerParent_def blk_defs)

subsection \<open>reorg\<close>

lemma insertBlock_blocks:
  "tds (insertBlock b s) = tds s" "headers (insertBlock b s) = headers s"
  "bodies (insertBlock b s) = bodies s"
  by (simp_all add: insertBlock_def Let_def write_defs)

lemma reinsert_blocks:
  "reinsert env b s = (e, s') \<Longrightarrow>
     tds s' = tds s \<and> headers s' = headers s \<and> bodies s' = bodies s"
  by (auto simp: reinsert_def Let_def insertBlock_blocks write_defs split: option.splits)

lemma reinsertAll_blocks:
  "reinsertAll env bs s = (e, s') \<Longrightarrow>
     tds s' = tds s \<and> headers s' = headers s \<and> bodies s' = bodies s"
proof (induction bs arbitrary: s)
  case Nil
  then show ?case by simp
next
  case (Cons b bs)
  obtain e1 s1 where r: "reinsert env b s = (e1, s1)" by (cases "reinsert env b s")
  note k = reinsert_blocks [OF r]
  show ?case
  proof (cases e1)
    case None
    with Cons.prems r have "reinsertAll env bs s1 = (e, s')" by simp
    from Cons.IH [OF this] k show ?thesis by simp
  next
    case (Some x)
    with Cons.prems r have "s' = s1" by simp
    with k show ?thesis by simp
  qed
qed

lemma deleteTxs_blocks:
  "tds (deleteTxs ts s) = tds s \<and> headers (deleteTxs ts s) = headers s
   \<and> bodies (deleteTxs ts s) = bodies s"
  by (induction ts arbitrary: s) (simp_all add: write_defs)

lemma spawn_blocks [simp]:
  "tds (spawn g s) = tds s" "headers (spawn g s) = headers s" "bodies (spawn g s) = bodies s"
  by (simp_all add: spawn_def)

lemma reorgApply_blocks:
  assumes "reorgApply env acc s = (e, s')"
  shows "tds s' = tds s \<and> headers s' = headers s \<and> bodies s' = bodies s"
proof -
  obtain e1 s1 where r: "reinsertAll env (newChain acc) s = (e1, s1)"
    by (cases "reinsertAll env (newChain acc) s")
  note k = reinsertAll_blocks [OF r]
  show ?thesis
  proof (cases e1)
    case (Some x)
    with assms r have "s' = s1" by (simp add: reorgApply_def)
    with k show ?thesis by simp
  next
    case None
    with assms r k show ?thesis
      by (auto simp: reorgApply_def Let_def deleteTxs_blocks)
  qed
qed

lemma reorg_keeps_blocks:
  assumes "reorg env fuel s ob nb = Return (e, s')"
  shows "GetTd s' = GetTd s \<and> GetBlock s' = GetBlock s"
proof -
  have "tds s' = tds s \<and> headers s' = headers s \<and> bodies s' = bodies s"
  proof (cases "reorgWalk fuel s ob nb")
    case (Return w)
    show ?thesis
    proof (cases w)
      case (Inl x)
      with Return assms show ?thesis by (simp add: reorg_def)
    next
      case (Inr ca)
      with Return assms have "reorgApply env (snd ca) s = (e, s')"
        by (cases ca) (simp add: reorg_def)
      then show ?thesis by (rule reorgApply_blocks)
    qed
  qed (insert assms, simp_all add: reorg_def)
  then show ?thesis
    by (auto simp: fun_eq_iff GetTd_def intro: GetBlock_cong [THEN fun_cong])
qed

text \<open>
  Fuel. Where every parent in the store has a lower number than its child, each loop of
  the walk takes at most as many steps as the number of the block it starts from, and
  one more to meet the missing parent.
\<close>

lemma lower_unat:
  "lowerParent s b \<Longrightarrow> GetBlock s (ParentHash b) = Some p \<Longrightarrow>
     unat (NumberU64 p) < unat (NumberU64 b)"
  by (simp add: lowerParent_def word_less_nat_alt)

lemma reduceNew_returns:
  "parentsLower s \<Longrightarrow> lowerParent s nb \<Longrightarrow> unat (NumberU64 nb) + 1 < fuel \<Longrightarrow>
     \<exists>r. reduceNew fuel s ob (Some nb) acc = Return r"
proof (induction fuel arbitrary: nb acc)
  case 0
  then show ?case by simp
next
  case (Suc k)
  show ?case
  proof (cases "NumberU64 nb \<noteq> NumberU64 ob")
    case False
    then show ?thesis by simp
  next
    case True
    show ?thesis
    proof (cases "GetBlock s (ParentHash nb)")
      case None
      from Suc.prems(3) obtain k' where "k = Suc k'" by (cases k) auto
      with True None show ?thesis by simp
    next
      case (Some p)
      from lower_unat [OF Suc.prems(2) Some] Suc.prems(3) have "unat (NumberU64 p) + 1 < k"
        by simp
      moreover from Suc.prems(1) Some have "lowerParent s p" unfolding parentsLower_def by blast
      ultimately have "\<exists>r. reduceNew k s ob (Some p) (acc\<lparr>newChain := newChain acc @ [nb]\<rparr>) = Return r"
        using Suc.IH Suc.prems(1) by blast
      with True Some show ?thesis by simp
    qed
  qed
qed

lemma reduceOld_returns:
  "parentsLower s \<Longrightarrow> lowerParent s ob \<Longrightarrow> unat (NumberU64 ob) + 1 < fuel \<Longrightarrow>
     \<exists>r. reduceOld fuel s (Some ob) nb acc = Return r"
proof (induction fuel arbitrary: ob acc)
  case 0
  then show ?case by simp
next
  case (Suc k)
  show ?case
  proof (cases "NumberU64 ob \<noteq> NumberU64 nb")
    case False
    then show ?thesis by simp
  next
    case True
    show ?thesis
    proof (cases "GetBlock s (ParentHash ob)")
      case None
      from Suc.prems(3) obtain k' where "k = Suc k'" by (cases k) auto
      with True None show ?thesis by simp
    next
      case (Some p)
      from lower_unat [OF Suc.prems(2) Some] Suc.prems(3) have "unat (NumberU64 p) + 1 < k"
        by simp
      moreover from Suc.prems(1) Some have "lowerParent s p" unfolding parentsLower_def by blast
      ultimately have "\<exists>r. reduceOld k s (Some p) nb (dropOld s ob acc) = Return r"
        using Suc.IH Suc.prems(1) by blast
      with True Some show ?thesis by simp
    qed
  qed
qed

lemma reduceOld_result:
  "reduceOld fuel s (Some ob) nb acc = Return (Some ob2, acc') \<Longrightarrow>
     lowerParent s ob \<Longrightarrow> parentsLower s \<Longrightarrow>
     lowerParent s ob2 \<and> NumberU64 ob2 = NumberU64 nb"
proof (induction fuel arbitrary: ob acc)
  case 0
  then show ?case by simp
next
  case (Suc k)
  show ?case
  proof (cases "NumberU64 ob \<noteq> NumberU64 nb")
    case False
    with Suc.prems show ?thesis by simp
  next
    case True
    show ?thesis
    proof (cases "GetBlock s (ParentHash ob)")
      case None
      with True Suc.prems(1) show ?thesis by (cases k) simp_all
    next
      case (Some p)
      with True Suc.prems(1)
      have "reduceOld k s (Some p) nb (dropOld s ob acc) = Return (Some ob2, acc')" by simp
      moreover from Suc.prems(3) Some have "lowerParent s p" unfolding parentsLower_def by blast
      ultimately show ?thesis using Suc.IH Suc.prems(3) by blast
    qed
  qed
qed

lemma findCommon_returns:
  "parentsLower s \<Longrightarrow> lowerParent s ob \<Longrightarrow> unat (NumberU64 ob) < fuel \<Longrightarrow>
     \<exists>r. findCommon fuel s ob nb acc = Return r"
proof (induction fuel arbitrary: ob nb acc)
  case 0
  then show ?case by simp
next
  case (Suc k)
  show ?case
  proof (cases "BlockHash ob = BlockHash nb")
    case True
    then show ?thesis by simp
  next
    case False
    show ?thesis
    proof (cases "GetBlock s (ParentHash ob)")
      case None
      with False show ?thesis by (simp add: Let_def)
    next
      case (Some p)
      show ?thesis
      proof (cases "GetBlock s (ParentHash nb)")
        case None
        with False Some show ?thesis by (simp add: Let_def)
      next
        case q: (Some q)
        from lower_unat [OF Suc.prems(2) Some] Suc.prems(3) have "unat (NumberU64 p) < k"
          by simp
        moreover from Suc.prems(1) Some have "lowerParent s p"
          unfolding parentsLower_def by blast
        ultimately have "\<exists>r. findCommon k s p q
            (dropOld s ob (acc\<lparr>newChain := newChain acc @ [nb]\<rparr>)) = Return r"
          using Suc.IH Suc.prems(1) by blast
        with False Some q show ?thesis by (simp add: Let_def)
      qed
    qed
  qed
qed

lemma reorgWalk_returns:
  assumes pl: "parentsLower s" and lo: "lowerParent s oldBlock" and ln: "lowerParent s newBlock"
    and fo: "unat (NumberU64 oldBlock) + 1 < fuel" and fn: "unat (NumberU64 newBlock) + 1 < fuel"
  shows "\<exists>r. reorgWalk fuel s oldBlock newBlock = Return r"
proof (cases "NumberU64 oldBlock > NumberU64 newBlock")
  case True
  from reduceOld_returns [OF pl lo fo] obtain ob2 acc where
    r: "reduceOld fuel s (Some oldBlock) newBlock emptyAcc = Return (ob2, acc)" by fastforce
  show ?thesis
  proof (cases ob2)
    case None
    with True r show ?thesis by (simp add: reorgWalk_def)
  next
    case (Some ob)
    from reduceOld_result [OF r [unfolded Some] lo pl]
    have "lowerParent s ob" "NumberU64 ob = NumberU64 newBlock" by simp_all
    with fn have "unat (NumberU64 ob) < fuel" by simp
    from findCommon_returns [OF pl \<open>lowerParent s ob\<close> this]
    obtain x where "findCommon fuel s ob newBlock acc = Return x" by blast
    with True r Some show ?thesis by (simp add: reorgWalk_def)
  qed
next
  case False
  from reduceNew_returns [OF pl ln fn] obtain nb2 acc where
    r: "reduceNew fuel s oldBlock (Some newBlock) emptyAcc = Return (nb2, acc)" by fastforce
  show ?thesis
  proof (cases nb2)
    case None
    with False r show ?thesis by (simp add: reorgWalk_def)
  next
    case (Some nb)
    from fo have "unat (NumberU64 oldBlock) < fuel" by simp
    from findCommon_returns [OF pl lo this]
    obtain x where "findCommon fuel s oldBlock nb acc = Return x" by blast
    with False r Some show ?thesis by (simp add: reorgWalk_def)
  qed
qed

lemma reorg_returns:
  assumes "parentsLower s" and "lowerParent s oldBlock" and "lowerParent s newBlock"
    and "unat (NumberU64 oldBlock) + 1 < fuel" and "unat (NumberU64 newBlock) + 1 < fuel"
  shows "\<exists>e s'. reorg env fuel s oldBlock newBlock = Return (e, s')"
proof -
  from reorgWalk_returns [OF assms] obtain w where
    w: "reorgWalk fuel s oldBlock newBlock = Return w" by blast
  show ?thesis
  proof (cases w)
    case (Inl x)
    with w show ?thesis by (simp add: reorg_def)
  next
    case (Inr ca)
    obtain c acc where "ca = (c, acc)" by (cases ca)
    with w Inr show ?thesis
      by (cases "reorgApply env acc s") (simp add: reorg_def)
  qed
qed

lemma quiet_writes:
  "WriteTransactionsErr quietEnv s b = None" "WriteReceiptsErr quietEnv s rs = None"
  "WriteMipmapBloomErr quietEnv s n rs = None"
  by (simp_all add: quietEnv_def)

lemma insertBlock_sel:
  "canonical (insertBlock b s) = (canonical s)(NumberU64 b \<mapsto> BlockHash b)"
  "hc_currentHeader (insertBlock b s) =
     (if GetCanonicalHash s (NumberU64 b) \<noteq> BlockHash b then b_header b else hc_currentHeader s)"
  "headHeaderHash (insertBlock b s) =
     (if GetCanonicalHash s (NumberU64 b) \<noteq> BlockHash b then h_hash (b_header b)
      else headHeaderHash s)"
  "currentFastBlock (insertBlock b s) =
     (if GetCanonicalHash s (NumberU64 b) \<noteq> BlockHash b then Some b else currentFastBlock s)"
  "headFastBlockHash (insertBlock b s) =
     (if GetCanonicalHash s (NumberU64 b) \<noteq> BlockHash b then BlockHash b
      else headFastBlockHash s)"
  "mu (insertBlock b s) = mu s"
  by (simp_all add: insertBlock_def Let_def write_defs)

lemma reinsert_quiet:
  "reinsert quietEnv b s =
     (None, WriteMipmapBloom (NumberU64 b) (GetBlockReceipts s (BlockHash b))
              (WriteReceipts (GetBlockReceipts s (BlockHash b))
                 (WriteTransactions b (insertBlock b s))))"
  by (simp add: reinsert_def quiet_writes Let_def GetBlockReceipts_def insertBlock_def write_defs)

lemma reinsert_quiet_sel:
  "canonical (snd (reinsert quietEnv b s)) = canonical (insertBlock b s)"
  "currentBlock (snd (reinsert quietEnv b s)) = Some b"
  "headBlockHash (snd (reinsert quietEnv b s)) = BlockHash b"
  "hc_currentHeader (snd (reinsert quietEnv b s)) = hc_currentHeader (insertBlock b s)"
  "headHeaderHash (snd (reinsert quietEnv b s)) = headHeaderHash (insertBlock b s)"
  "currentFastBlock (snd (reinsert quietEnv b s)) = currentFastBlock (insertBlock b s)"
  "headFastBlockHash (snd (reinsert quietEnv b s)) = headFastBlockHash (insertBlock b s)"
  "tds (snd (reinsert quietEnv b s)) = tds s"
  "mu (snd (reinsert quietEnv b s)) = mu s"
  by (simp_all add: reinsert_quiet write_defs heads_insertBlock insertBlock_blocks insertBlock_sel)

lemma reinsertAll_quiet:
  "reinsertAll quietEnv (b # bs) s = reinsertAll quietEnv bs (snd (reinsert quietEnv b s))"
  by (simp add: reinsert_quiet)

lemma spawn_sel [simp]:
  "canonical (spawn g s) = canonical s" "currentBlock (spawn g s) = currentBlock s"
  "headBlockHash (spawn g s) = headBlockHash s" "hc_currentHeader (spawn g s) = hc_currentHeader s"
  "headHeaderHash (spawn g s) = headHeaderHash s"
  "currentFastBlock (spawn g s) = currentFastBlock s"
  "headFastBlockHash (spawn g s) = headFastBlockHash s" "mu (spawn g s) = mu s"
  by (simp_all add: spawn_def)

lemma forkChain_reorg_B2:
  "reorg quietEnv 5 forkChain blkA1 blkB2 = Return (None, afterReorgB2)"
proof -
  have w: "reorgWalk 5 forkChain blkA1 blkB2 = Return (Inr (blkG, accB2))"
    using forkChain_walk_B2 by (simp add: accB2_def)
  have a: "newChain accB2 = [blkB2, blkB1]" "oldChain accB2 = [blkA1]" "deletedTxs accB2 = []"
    "deletedLogs accB2 = []" "deletedLogsByHash accB2 = Map.empty"
    by (simp_all add: accB2_def)
  have t: "b_transactions blkB2 = []" "b_transactions blkB1 = []" by (simp_all add: blk_defs)
  have ra: "reinsertAll quietEnv [blkB2, blkB1] forkChain =
              (None, snd (reinsert quietEnv blkB1 (snd (reinsert quietEnv blkB2 forkChain))))"
    by (simp only: reinsertAll_quiet reinsertAll.simps(1))
  have "reorgApply quietEnv accB2 forkChain = (None, afterReorgB2)"
    unfolding reorgApply_def a ra by (simp add: t Let_def TxDifference_def afterReorgB2_def)
  with w show ?thesis by (simp add: reorg_def)
qed

lemma afterReorgB2_sel:
  "canonical afterReorgB2 1 = Some 12" "canonical afterReorgB2 2 = Some 13"
  "currentBlock afterReorgB2 = Some blkB1" "headBlockHash afterReorgB2 = 12"
  "hc_currentHeader afterReorgB2 = b_header blkB1" "headHeaderHash afterReorgB2 = 12"
  "currentFastBlock afterReorgB2 = Some blkB1" "headFastBlockHash afterReorgB2 = 12"
  by (simp_all add: afterReorgB2_def reinsert_quiet_sel insertBlock_sel heads_insertBlock
      forkChain_sel GetCanonicalHash_def blk_defs zeroHash_def)

lemma afterWriteB2_sel:
  "currentBlock afterWriteB2 = Some blkB2" "headBlockHash afterWriteB2 = 13"
  "canonical afterWriteB2 2 = Some 13"
  "hc_currentHeader afterWriteB2 = b_header blkB1" "headHeaderHash afterWriteB2 = 12"
  "currentFastBlock afterWriteB2 = Some blkB1" "headFastBlockHash afterWriteB2 = 12"
  by (simp_all add: afterWriteB2_def writeBlockData_def Let_def write_defs insertBlock_sel
      heads_insertBlock afterReorgB2_sel GetCanonicalHash_def blk_defs)

lemma reinsertAll_quiet_fst: "fst (reinsertAll quietEnv bs s) = None"
  by (induction bs arbitrary: s) (simp_all add: reinsert_quiet)

lemma reorgApply_quiet_fst: "fst (reorgApply quietEnv acc s) = None"
proof -
  obtain s1 where "reinsertAll quietEnv (newChain acc) s = (None, s1)"
    using reinsertAll_quiet_fst [of "newChain acc" s]
    by (cases "reinsertAll quietEnv (newChain acc) s") simp
  then show ?thesis by (simp add: reorgApply_def Let_def)
qed

lemma forkChain_lowerParent_A1: "lowerParent forkChain blkA1"
  by (simp add: lowerParent_def forkChain_blocks blk_defs)

lemma forkChain_reorg_fails:
  "reorg failingStore 5 forkChain blkA1 blkB2 =
     Return (Some (OtherError 1), insertBlock blkB2 forkChain)"
proof -
  have w: "reorgWalk 5 forkChain blkA1 blkB2 = Return (Inr (blkG, accB2))"
    using forkChain_walk_B2 by (simp add: accB2_def)
  have "reinsert failingStore blkB2 forkChain = (Some (OtherError 1), insertBlock blkB2 forkChain)"
    by (simp add: reinsert_def failingStore_def Let_def)
  then have "reorgApply failingStore accB2 forkChain
               = (Some (OtherError 1), insertBlock blkB2 forkChain)"
    by (simp add: reorgApply_def accB2_def)
  with w show ?thesis by (simp add: reorg_def)
qed

subsection \<open>NewBlockChain\<close>

text \<open>
  What the constructor does around \<open>NewHeaderChain\<close>: its error is handed on; after
  its success a store without a canonical block at height 0 gives \<open>ErrNoGenesis\<close>
  before any recovery runs.
\<close>

lemma NewBlockChain_header_chain_fails:
  "NewHeaderChain env db = (Inl e, db1) \<Longrightarrow> NewBlockChain fuel env db = Return (Inl (e, db1))"
  by (simp add: NewBlockChain_def)

lemma NewBlockChain_after_header_chain:
  "NewHeaderChain env db = (Inr hc, db1) \<Longrightarrow> GetBlockByNumber db1 0 = None \<Longrightarrow>
     NewBlockChain fuel env db = Return (Inl (ErrNoGenesis, db1))"
  by (cases hc) (simp add: NewBlockChain_def)
subsection \<open>Rewinding\<close>

lemma loadHeads_tables:
  "headers (loadHeads cur s) = headers s"
  "bodies (loadHeads cur s) = bodies s"
  "tds (loadHeads cur s) = tds s"
  "canonical (loadHeads cur s) = canonical s"
  "stateRoots (loadHeads cur s) = stateRoots s"
  "headBlockHash (loadHeads cur s) = headBlockHash s"
  "mu (loadHeads cur s) = mu s"
  "genesisBlock (loadHeads cur s) = genesisBlock s"
  "currentBlock (loadHeads cur s) = Some cur"
  by (simp_all add: loadHeads_def Let_def SetCurrentHeader_def WriteHeadHeaderHash_def)

lemma primeState_cases:
  "primeState cur s = DoReset \<longleftrightarrow> False"
  "primeState cur s = DoSetHead n s' \<longleftrightarrow> False"
  "primeState cur s = Done e s' \<longleftrightarrow>
     (if stateNew s (BlockRoot cur) then e = None \<and> s' = s\<lparr>stateCache := Some (BlockRoot cur)\<rparr>
      else e = Some (OtherError 0) \<and> s' = s)"
  by (auto simp: primeState_def)

lemma loadLastStateCheck_Done:
  assumes "loadLastStateCheck env s = Done e s'"
  shows "\<exists>cur. GetBlock s (headBlockHash s) = Some cur \<and> stateNew s (BlockRoot cur)
           \<and> currentBlock s' = Some cur
           \<and> headers s' = headers s \<and> bodies s' = bodies s \<and> tds s' = tds s
           \<and> canonical s' = canonical s \<and> stateRoots s' = stateRoots s
           \<and> headBlockHash s' = headBlockHash s \<and> mu s' = mu s
           \<and> genesisBlock s' = genesisBlock s"
proof -
  from assms obtain cur where c: "GetBlock s (headBlockHash s) = Some cur"
    and st: "stateNew s (BlockRoot cur)"
    and d: "(if headsAtGenesis env (headerFromStore s) cur (loadHeads cur s)
             then (case scanForward env (loadHeads cur s) 1 None of
                     Some lastOk \<Rightarrow> DoSetHead (NumberU64 lastOk) (loadHeads cur s)
                   | None \<Rightarrow> primeState cur (loadHeads cur s))
             else primeState cur (loadHeads cur s)) = Done e s'"
    by (auto simp: loadLastStateCheck_def Let_def split: if_splits option.splits)
  from d have "primeState cur (loadHeads cur s) = Done e s'"
    by (auto split: if_splits option.splits)
  then have "s' = (loadHeads cur s)\<lparr>stateCache := Some (BlockRoot cur)\<rparr> \<or> s' = loadHeads cur s"
    by (auto simp: primeState_cases split: if_splits)
  then show ?thesis using c st by (auto simp: loadHeads_tables)
qed

lemma loadLastStateCheck_DoSetHead:
  "loadLastStateCheck env s = DoSetHead n s' \<Longrightarrow> mu s' = mu s"
  by (auto simp: loadLastStateCheck_def Let_def primeState_cases loadHeads_tables
      split: if_splits option.splits)

lemma SetHead_locked: "mu s \<Longrightarrow> SetHead fuel env n s \<noteq> Return r"
  by (cases fuel) simp_all

lemma ResetWithGenesisBlock_locked:
  "mu s \<Longrightarrow> ResetWithGenesisBlock fuel env g s \<noteq> Return r"
proof (cases fuel)
  case 0
  then show ?thesis by simp
next
  case (Suc k)
  assume "mu s"
  then have "\<forall>q. SetHead k env 0 s \<noteq> Return q" by (simp add: SetHead_locked)
  then show ?thesis using Suc by (cases "SetHead k env 0 s") (simp_all add: andThen_def)
qed

lemma loadLastState_locked:
  assumes "mu s" and "loadLastState fuel env s = Return (e, s')"
  shows "loadLastStateCheck env s = Done e s'"
proof (cases fuel)
  case 0
  with assms show ?thesis by simp
next
  case (Suc k)
  show ?thesis
  proof (cases "loadLastStateCheck env s")
    case DoReset
    with assms Suc ResetWithGenesisBlock_locked [OF assms(1)] show ?thesis by simp
  next
    case (DoSetHead n s2)
    from loadLastStateCheck_DoSetHead [OF this] assms(1) have "mu s2" by simp
    from SetHead_locked [OF this] DoSetHead assms Suc show ?thesis by simp
  next
    case (Done e2 s2)
    with assms Suc show ?thesis by simp
  qed
qed

lemma SetHead_Return:
  assumes "SetHead fuel env n s = Return (e, s')"
  shows "\<not> mu s \<and> (\<exists>s2. loadLastStateCheck env (SetHeadRewind n (s\<lparr>mu := True\<rparr>)) = Done e s2
                      \<and> s' = s2\<lparr>mu := False\<rparr>)"
proof (cases fuel)
  case 0
  with assms show ?thesis by simp
next
  case (Suc k)
  with assms have m: "\<not> mu s" by (auto split: if_splits)
  with assms Suc obtain s2 where
    l: "loadLastState k env (SetHeadRewind n (s\<lparr>mu := True\<rparr>)) = Return (e, s2)"
    and s': "s' = s2\<lparr>mu := False\<rparr>"
    by (auto simp: andThen_Return)
  have "mu (SetHeadRewind n (s\<lparr>mu := True\<rparr>))"
    by (simp add: SetHeadRewind_def Let_def hc_SetHead_def write_defs)
  from loadLastState_locked [OF this l] m s' show ?thesis by auto
qed

text \<open>With four units of fuel SetHead either returns or meets its own lock.\<close>

lemma SetHead_unfold:
  "SetHead (Suc (Suc (Suc (Suc k)))) env n s =
     (if mu s then Blocked
      else (case loadLastStateCheck env (SetHeadRewind n (s\<lparr>mu := True\<rparr>)) of
              Done e s' \<Rightarrow> Return (e, s'\<lparr>mu := False\<rparr>)
            | DoReset \<Rightarrow> Blocked
            | DoSetHead m s' \<Rightarrow> Blocked))"
proof -
  have mu1: "mu (SetHeadRewind n (s\<lparr>mu := True\<rparr>))"
    by (simp add: SetHeadRewind_def Let_def hc_SetHead_def write_defs)
  show ?thesis
  proof (cases "loadLastStateCheck env (SetHeadRewind n (s\<lparr>mu := True\<rparr>))")
    case DoReset
    with mu1 show ?thesis by simp
  next
    case (DoSetHead m s2)
    from loadLastStateCheck_DoSetHead [OF this] mu1 have "mu s2" by simp
    with DoSetHead show ?thesis by simp
  next
    case (Done e s2)
    then show ?thesis by simp
  qed
qed

lemma aboveHead_mu [simp]: "aboveHead (s\<lparr>mu := m\<rparr>) n h = aboveHead s n h"
  by (simp add: aboveHead_def)

lemma hc_SetHead_sel:
  "headers (hc_SetHead n s) h = (if aboveHead s n h then None else headers s h)"
  "tds (hc_SetHead n s) h = (if aboveHead s n h then None else tds s h)"
  "bodies (hc_SetHead n s) h = (if aboveHead s n h then None else bodies s h)"
  "canonical (hc_SetHead n s) k = (if n < k then None else canonical s k)"
  "stateRoots (hc_SetHead n s) = stateRoots s"
  "currentBlock (hc_SetHead n s) = currentBlock s"
  "currentFastBlock (hc_SetHead n s) = currentFastBlock s"
  "genesisBlock (hc_SetHead n s) = genesisBlock s"
  "hc_genesisHeader (hc_SetHead n s) = hc_genesisHeader s"
  "mu (hc_SetHead n s) = mu s"
  by (simp_all add: hc_SetHead_def Let_def write_defs)

lemma hc_SetHead_currentHeader:
  "hc_currentHeader (hc_SetHead n s) =
     (case canonical s n of
        None \<Rightarrow> hc_genesisHeader s
      | Some h \<Rightarrow> (if aboveHead s n h then hc_genesisHeader s
                   else (case headers s h of None \<Rightarrow> hc_genesisHeader s | Some hdr \<Rightarrow> hdr)))"
  "headHeaderHash (hc_SetHead n s) = h_hash (hc_currentHeader (hc_SetHead n s))"
  by (simp_all add: hc_SetHead_def Let_def write_defs lookup_defs split: option.splits)

lemma hc_SetHead_GetBlock:
  "GetBlock (hc_SetHead n s) h = Some b \<Longrightarrow> GetBlock s h = Some b"
  by (simp add: lookup_defs hc_SetHead_sel split: if_splits option.splits)

lemma GetBlock_header:
  "GetBlock s h = Some b \<Longrightarrow> headers s h = Some (b_header b)"
  by (auto simp: lookup_defs split: option.splits)

lemma currentHeader_bound:
  assumes wf: "consistent s"
  shows "h_number (hc_currentHeader (hc_SetHead n s)) \<le> n
         \<and> (\<forall>x. headers s (h_hash (hc_currentHeader (hc_SetHead n s))) = Some x
                \<longrightarrow> h_number x \<le> n)"
proof (cases "canonical s n")
  case None
  with wf show ?thesis by (simp add: hc_SetHead_currentHeader consistent_def)
next
  case (Some h)
  show ?thesis
  proof (cases "\<not> aboveHead s n h \<and> headers s h \<noteq> None")
    case False
    with Some wf show ?thesis
      by (auto simp: hc_SetHead_currentHeader consistent_def)
  next
    case True
    then obtain hdr where hdr: "headers s h = Some hdr" and na: "\<not> aboveHead s n h" by auto
    from wf hdr have hh: "h_hash hdr = h" by (simp add: consistent_def)
    from wf hdr Some have "h_number hdr = n" unfolding consistent_def by blast
    with hh hdr Some na show ?thesis by (simp add: hc_SetHead_currentHeader)
  qed
qed

lemma rewindTo_futureBlocks [simp]:
  "rewindTo (s\<lparr>futureBlocks := f\<rparr>) H ob = rewindTo s H ob"
  by (simp add: rewindTo_def lookup_defs split: option.splits)

lemma SetHeadRewind_sel:
  "headers (SetHeadRewind n s) = headers (hc_SetHead n s)"
  "tds (SetHeadRewind n s) = tds (hc_SetHead n s)"
  "bodies (SetHeadRewind n s) = bodies (hc_SetHead n s)"
  "canonical (SetHeadRewind n s) = canonical (hc_SetHead n s)"
  "stateRoots (SetHeadRewind n s) = stateRoots (hc_SetHead n s)"
  "genesisBlock (SetHeadRewind n s) = genesisBlock s"
  "mu (SetHeadRewind n s) = mu s"
  "headBlockHash (SetHeadRewind n s) =
     BlockHash (case headChoice n s of None \<Rightarrow> genesisBlock s | Some b \<Rightarrow> b)"
  "currentBlock (SetHeadRewind n s) =
     Some (case headChoice n s of None \<Rightarrow> genesisBlock s | Some b \<Rightarrow> b)"
  by (simp_all add: SetHeadRewind_def Let_def write_defs hc_SetHead_sel headChoice_def stateNew_def
      split: option.splits)

lemma hc_SetHead_mu:
  "GetBlock (hc_SetHead n (s\<lparr>mu := m\<rparr>)) h = GetBlock (hc_SetHead n s) h"
  "hc_currentHeader (hc_SetHead n (s\<lparr>mu := m\<rparr>)) = hc_currentHeader (hc_SetHead n s)"
  "stateNew (hc_SetHead n (s\<lparr>mu := m\<rparr>)) rt = stateNew (hc_SetHead n s) rt"
  by (simp_all add: lookup_defs hc_SetHead_sel hc_SetHead_currentHeader split: option.splits)

lemma headChoice_mu [simp]: "headChoice n (s\<lparr>mu := m\<rparr>) = headChoice n s"
  by (simp add: headChoice_def rewindTo_def hc_SetHead_mu cong: option.case_cong if_cong)

lemma headChoice_bound:
  assumes wf: "consistent s"
    and c: "headChoice n s = Some b"
    and x: "headers s (BlockHash b) = Some x"
  shows "h_number x \<le> n"
proof -
  let ?s1 = "hc_SetHead n s"
  let ?H = "hc_currentHeader ?s1"
  from c have r: "rewindTo ?s1 ?H (currentBlock s) = Some b"
    by (simp add: headChoice_def split: option.splits if_splits)
  then obtain ob where ob: "currentBlock s = Some ob"
    by (auto simp: rewindTo_def split: option.splits)
  note hb = currentHeader_bound [OF wf, of n]
  show ?thesis
  proof (cases "h_number ?H < NumberU64 ob")
    case True
    with r ob have "GetBlock ?s1 (h_hash ?H) = Some b" by (simp add: rewindTo_def)
    then have "GetBlock s (h_hash ?H) = Some b" by (rule hc_SetHead_GetBlock)
    then have g: "headers s (h_hash ?H) = Some (b_header b)" by (rule GetBlock_header)
    with wf have "BlockHash b = h_hash ?H" by (simp add: consistent_def BlockHash_def)
    with x hb show ?thesis by simp
  next
    case False
    with r ob have "b = ob" by (simp add: rewindTo_def)
    with wf ob x have "h_number x = NumberU64 ob" unfolding consistent_def by blast
    moreover from False have "NumberU64 ob \<le> h_number ?H" by simp
    moreover from hb have "h_number ?H \<le> n" by blast
    ultimately show ?thesis by simp
  qed
qed

lemma longChain_sel:
  "headers longChain = [10 \<mapsto> b_header blkG, 11 \<mapsto> b_header blkA1, 19 \<mapsto> b_header blkA2]"
  "bodies longChain = [10 \<mapsto> emptyBody, 11 \<mapsto> emptyBody, 19 \<mapsto> emptyBody]"
  "tds longChain = [10 \<mapsto> 10, 11 \<mapsto> 20, 19 \<mapsto> 30]"
  "canonical longChain = [0 \<mapsto> 10, 1 \<mapsto> 11, 2 \<mapsto> 19]"
  "headBlockHash longChain = 19" "headHeaderHash longChain = 19" "headFastBlockHash longChain = 19"
  "stateRoots longChain = {10, 11, 19}"
  "genesisBlock longChain = blkG" "hc_genesisHeader longChain = b_header blkG"
  "hc_currentHeader longChain = b_header blkA2"
  "currentBlock longChain = Some blkA2" "currentFastBlock longChain = Some blkA2"
  "mu longChain = False"
  by (simp_all add: longChain_def)

lemma blkA2_fields:
  "h_hash (b_header blkA2) = 19" "h_number (b_header blkA2) = 2"
  "h_number (b_header blkA1) = 1" "h_number (b_header blkG) = 0"
  "BlockHash blkG = 10" "BlockHash blkA1 = 11" "BlockHash blkA2 = 19"
  "NumberU64 blkG = 0" "NumberU64 blkA1 = 1" "NumberU64 blkA2 = 2"
  "ParentHash blkA1 = 10" "BlockRoot blkA1 = 11" "BlockRoot blkG = 10"
  by (simp_all add: blkA2_def blk_defs BlockRoot_def mkBlock_def mkHeader_def acc_defs)

lemma longChain_consistent: "consistent longChain"
  by (auto simp: consistent_def longChain_sel blkA2_fields blkG_parent split: if_splits)

lemma longChain_above: "aboveHead longChain 1 h \<longleftrightarrow> h = 19"
proof
  assume "aboveHead longChain 1 h"
  then obtain k :: "64 word" where "1 < k" "canonical longChain k = Some h"
    unfolding aboveHead_def by blast
  then show "h = 19" by (auto simp: longChain_sel split: if_splits)
next
  assume "h = 19"
  then have "(1::64 word) < 2 \<and> canonical longChain 2 = Some h" by (simp add: longChain_sel)
  then show "aboveHead longChain 1 h" unfolding aboveHead_def by blast
qed

lemma loadLastStateCheck_DoneI:
  assumes "headBlockHash s \<noteq> zeroHash"
    and "GetBlock s (headBlockHash s) = Some cur"
    and "blockIsUnhealthy env s (Some cur) = None"
    and "ValidateBlock env s cur = None"
    and "stateNew s (BlockRoot cur)"
    and "\<not> headsAtGenesis env (headerFromStore s) cur (loadHeads cur s)"
  shows "loadLastStateCheck env s = Done None ((loadHeads cur s)\<lparr>stateCache := Some (BlockRoot cur)\<rparr>)"
  using assms by (simp add: loadLastStateCheck_def Let_def primeState_def stateNew_def loadHeads_tables)

lemma longChain_headChoice: "headChoice 1 longChain = Some blkA1"
proof -
  have H: "hc_currentHeader (hc_SetHead 1 longChain) = b_header blkA1"
    by (simp add: hc_SetHead_currentHeader longChain_sel longChain_above)
  have G: "GetBlock (hc_SetHead 1 longChain) 11 = Some blkA1"
    by (simp add: lookup_defs hc_SetHead_sel longChain_sel longChain_above blk_defs mkBlock_def
        emptyBody_def)
  show ?thesis
    by (simp add: headChoice_def rewindTo_def H G longChain_sel blkA2_fields blkG_parent
        stateNew_def hc_SetHead_sel)
qed

lemma loadHeads_not_genesis:
  "cur \<noteq> genesisBlock s \<Longrightarrow> \<not> headsAtGenesis env f cur (loadHeads cur s)"
  by (simp add: headsAtGenesis_def loadHeads_tables blockIsGenesis_def)

lemma longChain_rewound:
  "SetHead 4 quietEnv 1 longChain =
     Return (None, (loadHeads blkA1 (SetHeadRewind 1 (longChain\<lparr>mu := True\<rparr>)))
                     \<lparr>stateCache := Some 11, mu := False\<rparr>)"
proof -
  let ?R = "SetHeadRewind 1 (longChain\<lparr>mu := True\<rparr>)"
  have hb: "headBlockHash ?R = 11"
    by (simp add: SetHeadRewind_sel longChain_headChoice blkA2_fields)
  have g: "GetBlock ?R h = (if h = 19 then None else GetBlock longChain h)" for h
    by (simp add: lookup_defs SetHeadRewind_sel hc_SetHead_sel longChain_above
        split: option.splits)
  have b: "GetBlock longChain 11 = Some blkA1" "GetBlock longChain 10 = Some blkG"
    by (simp_all add: lookup_defs longChain_sel blk_defs mkBlock_def emptyBody_def)
  have ne: "blkA1 \<noteq> blkG" by (simp add: blk_defs mkBlock_def mkHeader_def)
  have gen: "genesisBlock ?R = blkG" by (simp add: SetHeadRewind_sel longChain_sel)
  have "loadLastStateCheck quietEnv ?R =
          Done None ((loadHeads blkA1 ?R)\<lparr>stateCache := Some (BlockRoot blkA1)\<rparr>)"
  proof (rule loadLastStateCheck_DoneI)
    show "headBlockHash ?R \<noteq> zeroHash" by (simp add: hb zeroHash_def)
    show "GetBlock ?R (headBlockHash ?R) = Some blkA1" by (simp add: hb g b)
    show "blockIsUnhealthy quietEnv ?R (Some blkA1) = None"
      by (simp add: blockIsUnhealthy_def blockIsGenesis_def gen ne blkA2_fields g b zeroHash_def
          quietEnv_def)
    show "ValidateBlock quietEnv ?R blkA1 = None" by (simp add: quietEnv_def)
    show "stateNew ?R (BlockRoot blkA1)"
      by (simp add: stateNew_def SetHeadRewind_sel hc_SetHead_sel longChain_sel blkA2_fields)
    show "\<not> headsAtGenesis quietEnv (headerFromStore ?R) blkA1 (loadHeads blkA1 ?R)"
      by (rule loadHeads_not_genesis) (simp add: gen ne)
  qed
  moreover have "(4::nat) = Suc (Suc (Suc (Suc 0)))" by simp
  ultimately show ?thesis
    by (simp only: SetHead_unfold) (simp add: longChain_sel blkA2_fields)
qed

subsection \<open>Recovery at startup\<close>

lemma scanned_0:
  "scanned s i0 0 \<longleftrightarrow> i0 < 5000000 \<and> GetBlockByNumber s (word_of_nat i0) \<noteq> None"
  by (simp add: scanned_def)

lemma scanned_Suc:
  "scanned s i0 (Suc j) \<longleftrightarrow>
     i0 < 5000000 \<and> GetBlockByNumber s (word_of_nat i0) \<noteq> None \<and> scanned s (i0 + 2048) j"
proof -
  have "{..Suc j} = insert 0 (Suc ` {..j})" by (rule atMost_Suc_eq_insert_0)
  then show ?thesis by (simp add: scanned_def add.assoc)
qed

lemma scanned_first:
  "scanned s i0 j \<Longrightarrow> i0 < 5000000 \<and> GetBlockByNumber s (word_of_nat i0) \<noteq> None"
  by (cases j) (simp_all add: scanned_0 scanned_Suc)

lemma scanForward_spec:
  "(scanForward env s i0 acc = acc
      \<and> (\<forall>j. scanned s i0 j \<longrightarrow> \<not> healthyAt env s (i0 + 2048 * j)))
   \<or> (\<exists>j. scanned s i0 j \<and> healthyAt env s (i0 + 2048 * j)
          \<and> scanForward env s i0 acc = GetBlockByNumber s (word_of_nat (i0 + 2048 * j))
          \<and> (\<forall>j'. j < j' \<longrightarrow> scanned s i0 j' \<longrightarrow> \<not> healthyAt env s (i0 + 2048 * j')))"
proof (induction env s i0 acc rule: scanForward.induct)
  case (1 env s i lastOk)
  show ?case
  proof (cases "i < 5000000 \<and> GetBlockByNumber s (word_of_nat i) \<noteq> None")
    case False
    then have "scanForward env s i lastOk = lastOk"
      by (subst scanForward.simps) (auto split: option.splits)
    moreover from False have "\<not> scanned s i j" for j using scanned_first by blast
    ultimately show ?thesis by simp
  next
    case True
    then obtain bb where lt: "i < 5000000" and bb: "GetBlockByNumber s (word_of_nat i) = Some bb"
      by auto
    let ?acc = "if blockIsUnhealthy env s (Some bb) = None then Some bb else lastOk"
    have step: "scanForward env s i lastOk = scanForward env s (i + 2048) ?acc"
      by (subst scanForward.simps) (simp add: lt bb)
    have h0: "healthyAt env s i \<longleftrightarrow> blockIsUnhealthy env s (Some bb) = None"
      by (simp add: healthyAt_def bb)
    have sh: "scanned s i (Suc m) \<longleftrightarrow> scanned s (i + 2048) m" for m
      by (simp add: scanned_Suc lt bb)
    have s0: "scanned s i 0" by (simp add: scanned_0 lt bb)
    have ar: "i + 2048 * Suc m = i + 2048 + 2048 * m" for m by simp
    note IH = "1.IH" [OF lt bb]
    from IH show ?thesis
    proof
      assume l: "scanForward env s (i + 2048) ?acc = ?acc
                 \<and> (\<forall>j. scanned s (i + 2048) j \<longrightarrow> \<not> healthyAt env s (i + 2048 + 2048 * j))"
      then have later: "scanned s i (Suc m) \<Longrightarrow> \<not> healthyAt env s (i + 2048 * Suc m)" for m
        unfolding sh ar by blast
      show ?thesis
      proof (cases "blockIsUnhealthy env s (Some bb) = None")
        case True
        have "scanned s i 0 \<and> healthyAt env s (i + 2048 * 0)
              \<and> scanForward env s i lastOk = GetBlockByNumber s (word_of_nat (i + 2048 * 0))
              \<and> (\<forall>j'. 0 < j' \<longrightarrow> scanned s i j' \<longrightarrow> \<not> healthyAt env s (i + 2048 * j'))"
        proof (intro conjI allI impI)
          show "scanned s i 0" by (rule s0)
          show "healthyAt env s (i + 2048 * 0)" using True h0 by simp
          show "scanForward env s i lastOk = GetBlockByNumber s (word_of_nat (i + 2048 * 0))"
            using l True step bb by simp
        next
          fix j' :: nat
          assume "0 < j'" "scanned s i j'"
          then obtain m where "j' = Suc m" by (cases j') auto
          with \<open>scanned s i j'\<close> later show "\<not> healthyAt env s (i + 2048 * j')" by blast
        qed
        then show ?thesis by blast
      next
        case False
        from False have acc: "?acc = lastOk" by auto
        have "scanForward env s i lastOk = lastOk" using l step unfolding acc by simp
        moreover have "\<not> healthyAt env s (i + 2048 * j)" if "scanned s i j" for j
        proof (cases j)
          case 0
          with False h0 show ?thesis by simp
        next
          case (Suc m)
          with that later show ?thesis by blast
        qed
        ultimately show ?thesis by blast
      qed
    next
      assume "\<exists>j. scanned s (i + 2048) j \<and> healthyAt env s (i + 2048 + 2048 * j)
                \<and> scanForward env s (i + 2048) ?acc =
                    GetBlockByNumber s (word_of_nat (i + 2048 + 2048 * j))
                \<and> (\<forall>j'. j < j' \<longrightarrow> scanned s (i + 2048) j' \<longrightarrow>
                       \<not> healthyAt env s (i + 2048 + 2048 * j'))"
      then obtain j where a: "scanned s (i + 2048) j" "healthyAt env s (i + 2048 + 2048 * j)"
        "scanForward env s (i + 2048) ?acc = GetBlockByNumber s (word_of_nat (i + 2048 + 2048 * j))"
        and b: "\<And>j'. j < j' \<Longrightarrow> scanned s (i + 2048) j' \<Longrightarrow>
                   \<not> healthyAt env s (i + 2048 + 2048 * j')"
        by blast
      have "scanned s i (Suc j) \<and> healthyAt env s (i + 2048 * Suc j)
            \<and> scanForward env s i lastOk = GetBlockByNumber s (word_of_nat (i + 2048 * Suc j))
            \<and> (\<forall>j'. Suc j < j' \<longrightarrow> scanned s i j' \<longrightarrow> \<not> healthyAt env s (i + 2048 * j'))"
      proof (intro conjI allI impI)
        show "scanned s i (Suc j)" using a sh by blast
        show "healthyAt env s (i + 2048 * Suc j)" using a unfolding ar by blast
        show "scanForward env s i lastOk = GetBlockByNumber s (word_of_nat (i + 2048 * Suc j))"
          using a step unfolding ar by simp
      next
        fix j' :: nat
        assume c: "Suc j < j'" "scanned s i j'"
        then obtain m where m: "j' = Suc m" by (cases j') auto
        with c have "j < m" "scanned s (i + 2048) m" using sh by auto
        from b [OF this] show "\<not> healthyAt env s (i + 2048 * j')" unfolding m ar .
      qed
      then show ?thesis by blast
    qed
  qed
qed

lemma newChain0_sel:
  "headers (newChain0 db g gh ch) = headers db"
  "bodies (newChain0 db g gh ch) = bodies db"
  "tds (newChain0 db g gh ch) = tds db"
  "canonical (newChain0 db g gh ch) = canonical db"
  "headBlockHash (newChain0 db g gh ch) = headBlockHash db"
  "headHeaderHash (newChain0 db g gh ch) = headHeaderHash db"
  "headFastBlockHash (newChain0 db g gh ch) = headFastBlockHash db"
  "stateRoots (newChain0 db g gh ch) = stateRoots db"
  "genesisBlock (newChain0 db g gh ch) = g"
  "hc_genesisHeader (newChain0 db g gh ch) = gh"
  "hc_currentHeader (newChain0 db g gh ch) = ch"
  "currentBlock (newChain0 db g gh ch) = None"
  "currentFastBlock (newChain0 db g gh ch) = None"
  "mu (newChain0 db g gh ch) = False"
  by (simp_all add: newChain0_def chaindb.defs blockchain.defs)

lemma deepChain_sel:
  "headers (deepChain hp) h = (if 100 \<le> h \<and> h \<le> 4196 then Some (b_header (deepBlock h)) else None)"
  "bodies (deepChain hp) h = (if 100 \<le> h \<and> h \<le> 4196 then Some emptyBody else None)"
  "canonical (deepChain hp) k = (if unat k \<le> 4096 then Some (100 + unat k) else None)"
  "headBlockHash (deepChain hp) = hp" "headHeaderHash (deepChain hp) = hp"
  "headFastBlockHash (deepChain hp) = hp"
  "stateRoots (deepChain hp) = {h. 100 \<le> h \<and> h \<le> 4196}"
  "genesisBlock (deepChain hp) = deepBlock 100"
  "hc_genesisHeader (deepChain hp) = b_header (deepBlock 100)"
  "hc_currentHeader (deepChain hp) = b_header (deepBlock 100)"
  "currentBlock (deepChain hp) = None" "currentFastBlock (deepChain hp) = None"
  "mu (deepChain hp) = False"
  by (simp_all add: deepChain_def newChain0_sel deepDb_def)

lemma deepBlock_fields:
  "BlockHash (deepBlock h) = h" "h_hash (b_header (deepBlock h)) = h"
  "NumberU64 (deepBlock h) = word_of_nat (h - 100)"
  "h_number (b_header (deepBlock h)) = word_of_nat (h - 100)"
  "ParentHash (deepBlock h) = (if h = 100 then 0 else h - 1)"
  "BlockRoot (deepBlock h) = h"
  by (simp_all add: deepBlock_def mkBlock_def mkHeader_def acc_defs BlockRoot_def)

lemma deepBlock_inj: "deepBlock h = deepBlock h' \<longleftrightarrow> h = h'"
proof
  assume "deepBlock h = deepBlock h'"
  then have "BlockHash (deepBlock h) = BlockHash (deepBlock h')" by simp
  then show "h = h'" by (simp add: deepBlock_fields)
qed simp

lemma deepChain_GetBlock:
  "GetBlock (deepChain hp) h = (if 100 \<le> h \<and> h \<le> 4196 then Some (deepBlock h) else None)"
  by (simp add: lookup_defs deepChain_sel deepBlock_def mkBlock_def emptyBody_def)

lemma deepChain_GetBlockByNumber:
  "n \<le> 4096 \<Longrightarrow> GetBlockByNumber (deepChain hp) (word_of_nat n) = Some (deepBlock (100 + n))"
  "4096 < n \<Longrightarrow> n < 5000000 \<Longrightarrow> GetBlockByNumber (deepChain hp) (word_of_nat n) = None"
proof -
  have u: "unat (word_of_nat n :: 64 word) = n" if "n < 5000000"
    using that by (simp add: unsigned_of_nat take_bit_nat_eq_self)
  show "n \<le> 4096 \<Longrightarrow> GetBlockByNumber (deepChain hp) (word_of_nat n) = Some (deepBlock (100 + n))"
    using u by (simp add: GetBlockByNumber_def GetCanonicalHash_def deepChain_sel deepChain_GetBlock
        zeroHash_def)
  show "4096 < n \<Longrightarrow> n < 5000000 \<Longrightarrow> GetBlockByNumber (deepChain hp) (word_of_nat n) = None"
    using u by (simp add: GetBlockByNumber_def GetCanonicalHash_def deepChain_sel zeroHash_def)
qed

lemma loadLastStateCheck_intact:
  assumes "headIntact env s cur"
  shows "loadLastStateCheck env s =
           (if headsAtGenesis env (headerFromStore s) cur (loadHeads cur s)
            then (case scanForward env (loadHeads cur s) 1 None of
                    Some b \<Rightarrow> DoSetHead (NumberU64 b) (loadHeads cur s)
                  | None \<Rightarrow> Done None ((loadHeads cur s)\<lparr>stateCache := Some (BlockRoot cur)\<rparr>))
            else Done None ((loadHeads cur s)\<lparr>stateCache := Some (BlockRoot cur)\<rparr>))"
proof -
  from assms have a: "headBlockHash s \<noteq> zeroHash" "GetBlock s (headBlockHash s) = Some cur"
    "blockIsUnhealthy env s (Some cur) = None" "stateNew s (BlockRoot cur)"
    and v: "blockIsGenesis s cur
            \<or> (case ValidateBlock env s cur of None \<Rightarrow> True | Some e \<Rightarrow> IsKnownBlockErr e)"
    by (simp_all add: headIntact_def)
  from v have v': "\<not> (\<not> blockIsGenesis s cur
                       \<and> (case ValidateBlock env s cur of None \<Rightarrow> False
                           | Some e \<Rightarrow> \<not> IsKnownBlockErr e))"
    by (auto split: option.splits)
  have p: "primeState cur (loadHeads cur s) =
             Done None ((loadHeads cur s)\<lparr>stateCache := Some (BlockRoot cur)\<rparr>)"
    using a(4) by (simp add: primeState_def stateNew_def loadHeads_tables)
  show ?thesis
    unfolding loadLastStateCheck_def Let_def using a v' p
    by (simp split: option.splits)
qed

lemma loadLastState_absent:
  "headBlockHash s = zeroHash \<Longrightarrow> loadLastState (Suc k) env s = Reset k env s"
  by (simp add: loadLastStateCheck_def Reset_def)

lemma loadLastState_intact:
  assumes "headIntact env s cur" and "headsAtGenesis env (headerFromStore s) cur (loadHeads cur s)"
  shows "loadLastState (Suc k) env s =
           (case scanForward env (loadHeads cur s) 1 None of
              Some b \<Rightarrow> SetHead k env (NumberU64 b) (loadHeads cur s)
            | None \<Rightarrow> Return (None, (loadHeads cur s)\<lparr>stateCache := Some (BlockRoot cur)\<rparr>))"
  using assms by (simp add: loadLastStateCheck_intact split: option.splits)

lemma scanForward_Some:
  assumes "scanForward env s 1 None = Some b"
  shows "\<exists>j. scanned s 1 j \<and> GetBlockByNumber s (word_of_nat (1 + 2048 * j)) = Some b
             \<and> blockIsUnhealthy env s (Some b) = None
             \<and> (\<forall>j'. j < j' \<longrightarrow> scanned s 1 j' \<longrightarrow> \<not> healthyAt env s (1 + 2048 * j'))"
proof -
  from scanForward_spec [of env s 1 None] assms
  obtain j where j: "scanned s 1 j" "healthyAt env s (1 + 2048 * j)"
    "GetBlockByNumber s (word_of_nat (1 + 2048 * j)) = Some b"
    "\<forall>j'. j < j' \<longrightarrow> scanned s 1 j' \<longrightarrow> \<not> healthyAt env s (1 + 2048 * j')"
    by auto
  from j(2,3) have "blockIsUnhealthy env s (Some b) = None" by (simp add: healthyAt_def)
  with j show ?thesis by blast
qed

lemma scanForward_None:
  assumes "scanForward env s 1 None = None"
  shows "\<forall>j. scanned s 1 j \<longrightarrow> \<not> healthyAt env s (1 + 2048 * j)"
proof -
  from scanForward_spec [of env s 1 None] assms
  show ?thesis by (auto simp: healthyAt_def split: option.splits)
qed

lemma SetHeadRewind_heads:
  "hc_currentHeader (SetHeadRewind n s) = hc_currentHeader (hc_SetHead n s)"
  "headHeaderHash (SetHeadRewind n s) = h_hash (hc_currentHeader (hc_SetHead n s))"
  "headFastBlockHash (SetHeadRewind n s) =
     BlockHash (case rewindTo (hc_SetHead n s) (hc_currentHeader (hc_SetHead n s))
                       (currentFastBlock s) of
                  None \<Rightarrow> genesisBlock s | Some b \<Rightarrow> b)"
  by (simp_all add: SetHeadRewind_def Let_def write_defs hc_SetHead_sel hc_SetHead_currentHeader
      split: option.splits)

lemma loadHeads_heads:
  "hc_currentHeader (loadHeads cur s) =
     (if headHeaderHash s \<noteq> zeroHash
      then (case GetHeader s (headHeaderHash s) of None \<Rightarrow> b_header cur | Some hdr \<Rightarrow> hdr)
      else b_header cur)"
  "currentFastBlock (loadHeads cur s) =
     Some (if headFastBlockHash s \<noteq> zeroHash
           then (case GetBlock s (headFastBlockHash s) of None \<Rightarrow> cur | Some b \<Rightarrow> b)
           else cur)"
  by (simp_all add: loadHeads_def Let_def write_defs lookup_defs split: option.splits)

lemma resetGenesis_sel:
  "canonical (resetGenesis g s) = (canonical s)(NumberU64 g \<mapsto> BlockHash g)"
  "headers (resetGenesis g s) = (headers s)(h_hash (b_header g) \<mapsto> b_header g)"
  "bodies (resetGenesis g s) = (bodies s)(BlockHash g \<mapsto> BlockBody g)"
  "currentBlock (resetGenesis g s) = Some g"
  "currentFastBlock (resetGenesis g s) = Some g"
  "hc_currentHeader (resetGenesis g s) = b_header g"
  "genesisBlock (resetGenesis g s) = g"
  by (simp_all add: resetGenesis_def insertBlock_def Let_def write_defs)

lemma deep_above:
  assumes c: "\<And>k. canonical s k = (if unat k \<le> 4096 then Some (100 + unat k) else None)"
    and n: "unat n \<le> 4096"
  shows "aboveHead s n h \<longleftrightarrow> 100 + unat n < h \<and> h \<le> 4196"
proof
  assume "aboveHead s n h"
  then obtain k where k: "n < k" "canonical s k = Some h" unfolding aboveHead_def by blast
  from k(1) have "unat n < unat k" by (simp add: word_less_nat_alt)
  with k(2) show "100 + unat n < h \<and> h \<le> 4196" by (auto simp: c split: if_splits)
next
  assume h: "100 + unat n < h \<and> h \<le> 4196"
  let ?k = "word_of_nat (h - 100) :: 64 word"
  from h have "h \<le> 4196" by blast
  then have "h - 100 < (2::nat) ^ 64" by simp
  then have "take_bit 64 (h - 100) = h - 100" by (rule take_bit_nat_eq_self)
  then have u: "unat ?k = h - 100" by (simp del: of_nat_diff add: unsigned_of_nat)
  from h have "unat n < h - 100" "100 + (h - 100) = h" "h - 100 \<le> 4096" by arith+
  with u have "unat n < unat ?k" "100 + unat ?k = h" "unat ?k \<le> 4096" by (simp_all only:)
  then have "n < ?k" "canonical s ?k = Some h" by (simp_all only: word_less_nat_alt c if_True)
  then show "aboveHead s n h" unfolding aboveHead_def by blast
qed

lemma deepBlock_lookup:
  "100 \<le> h \<and> h \<le> 4196 \<Longrightarrow>
     \<lparr>b_header = b_header (deepBlock h), b_transactions = bd_transactions emptyBody,
        b_uncles = bd_uncles emptyBody\<rparr> = deepBlock h"
  by (simp add: deepBlock_def mkBlock_def emptyBody_def)

lemma resetRewind_sel:
  fixes hp :: hash
  defines "R \<equiv> SetHeadRewind 0 ((deepChain 0)\<lparr>mu := True\<rparr>)"
  shows "headers R h = (if h = 100 then Some (b_header (deepBlock 100)) else None)"
    and "bodies R h = (if h = 100 then Some emptyBody else None)"
    and "canonical R k = (if k = 0 then Some 100 else None)"
    and "stateRoots R = {h. 100 \<le> h \<and> h \<le> 4196}"
    and "genesisBlock R = deepBlock 100"
    and "headBlockHash R = 100" and "headFastBlockHash R = 100" and "headHeaderHash R = 100"
    and "hc_currentHeader R = b_header (deepBlock 100)"
    and "mu R"
proof -
  let ?L = "(deepChain 0)\<lparr>mu := True\<rparr>"
  have ab: "aboveHead (deepChain 0) 0 h \<longleftrightarrow> 100 < h \<and> h \<le> 4196" for h
    using deep_above [of "deepChain 0" 0 h, OF deepChain_sel(3)] by simp
  have hc: "hc_currentHeader (hc_SetHead 0 ?L) = b_header (deepBlock 100)"
    by (simp add: hc_SetHead_currentHeader deepChain_sel ab)
  have ch: "headChoice 0 (deepChain 0) = None"
    by (simp add: headChoice_def rewindTo_def hc_SetHead_sel deepChain_sel)
  show "headers R h = (if h = 100 then Some (b_header (deepBlock 100)) else None)"
    by (auto simp: R_def SetHeadRewind_sel hc_SetHead_sel ab deepChain_sel)
  show "bodies R h = (if h = 100 then Some emptyBody else None)"
    by (auto simp: R_def SetHeadRewind_sel hc_SetHead_sel ab deepChain_sel)
  show "canonical R k = (if k = 0 then Some 100 else None)"
    by (auto simp: R_def SetHeadRewind_sel hc_SetHead_sel deepChain_sel word_gt_0)
  show "stateRoots R = {h. 100 \<le> h \<and> h \<le> 4196}"
    by (simp add: R_def SetHeadRewind_sel hc_SetHead_sel deepChain_sel)
  show "genesisBlock R = deepBlock 100" by (simp add: R_def SetHeadRewind_sel deepChain_sel)
  show "headBlockHash R = 100"
    by (simp add: R_def SetHeadRewind_sel ch deepChain_sel deepBlock_fields)
  show "headFastBlockHash R = 100"
    by (simp add: R_def SetHeadRewind_heads rewindTo_def deepChain_sel deepBlock_fields)
  show "headHeaderHash R = 100" by (simp add: R_def SetHeadRewind_heads hc deepBlock_fields)
  show "hc_currentHeader R = b_header (deepBlock 100)" by (simp add: R_def SetHeadRewind_heads hc)
  show "mu R" by (simp add: R_def SetHeadRewind_sel)
qed

lemma headerFromStore_skips:
  "headerFromStore s \<Longrightarrow> \<not> headsAtGenesis env (headerFromStore s) cur s1"
  by (simp add: headsAtGenesis_def)

lemma reset_check:
  "loadLastStateCheck env (SetHeadRewind 0 ((deepChain 0)\<lparr>mu := True\<rparr>)) =
     Done None ((loadHeads (deepBlock 100) (SetHeadRewind 0 ((deepChain 0)\<lparr>mu := True\<rparr>)))
                  \<lparr>stateCache := Some 100\<rparr>)"
proof -
  let ?R = "SetHeadRewind 0 ((deepChain 0)\<lparr>mu := True\<rparr>)"
  let ?g = "deepBlock 100"
  note r = resetRewind_sel
  have g: "GetBlock ?R 100 = Some ?g" "GetHeader ?R 100 = Some (b_header ?g)"
    using deepBlock_lookup [of 100] by (simp_all add: lookup_defs r)
  have i: "headIntact env ?R ?g"
    by (simp add: headIntact_def r g zeroHash_def blockIsUnhealthy_def blockIsGenesis_def
        stateNew_def deepBlock_fields)
  have "headerFromStore ?R" by (simp add: headerFromStore_def r g zeroHash_def)
  then have a: "\<not> headsAtGenesis env (headerFromStore ?R) ?g (loadHeads ?g ?R)"
    by (rule headerFromStore_skips)
  show ?thesis
    unfolding loadLastStateCheck_intact [OF i] by (simp add: a deepBlock_fields)
qed

lemma reset_startup: "NewBlockChain 7 quietEnv (deepDb 0) = Return (Inr purged)"
proof -
  let ?g = "deepBlock 100"
  have n4: "(5::nat) = Suc (Suc (Suc (Suc 1)))" and n6: "(6::nat) = Suc 5" and n7: "(7::nat) = Suc 6"
    by simp_all
  have sh: "SetHead 5 quietEnv 0 (deepChain 0) =
              Return (None, (loadHeads ?g (SetHeadRewind 0 ((deepChain 0)\<lparr>mu := True\<rparr>)))
                              \<lparr>stateCache := Some 100, mu := False\<rparr>)"
    unfolding n4 SetHead_unfold by (simp add: reset_check deepChain_sel)
  have rs: "Reset 6 quietEnv (deepChain 0) = Return (None, purged)"
    unfolding Reset_def n6 ResetWithGenesisBlock.simps sh
    by (simp add: deepChain_sel purged_def)
  have "headBlockHash (deepChain 0) = zeroHash" by (simp add: deepChain_sel zeroHash_def)
  then have "loadLastState (Suc 6) quietEnv (deepChain 0) = Reset 6 quietEnv (deepChain 0)"
    by (rule loadLastState_absent)
  then have ll: "loadLastState 7 quietEnv (deepChain 0) = Return (None, purged)"
    by (simp add: rs)
  have hc: "NewHeaderChain quietEnv (deepDb 0) = (Inr (b_header ?g, b_header ?g), deepDb 0)"
    by (simp add: quietEnv_def lookup_defs deepDb_def)
  have gb: "GetBlockByNumber (deepDb 0) 0 = Some ?g"
    using deepBlock_lookup [of 100] by (simp add: lookup_defs deepDb_def zeroHash_def)
  have bh: "BadHashes quietEnv = []" by (simp add: quietEnv_def)
  show ?thesis
    by (simp add: NewBlockChain_def hc gb deepChain_def [symmetric] ll bh)
qed

lemma GetBlockByNumber_cong:
  assumes "headers s' = headers s" and "bodies s' = bodies s" and "canonical s' = canonical s"
  shows "GetBlockByNumber s' = GetBlockByNumber s"
proof -
  from assms(1,2) have "GetBlock s' = GetBlock s" by (rule GetBlock_cong)
  with assms(3) show ?thesis
    by (intro ext) (simp add: GetBlockByNumber_def GetCanonicalHash_def Let_def)
qed

lemma deep_healthy:
  assumes "GetBlock s = GetBlock (deepChain hp)" and "genesisBlock s = deepBlock 100"
    and "100 < h" and "h \<le> 4196" and v: "\<And>a b. ValidateHeader env s a b = None"
  shows "blockIsUnhealthy env s (Some (deepBlock h)) = None"
proof -
  from assms(3) have "word_of_nat (h - 100) \<noteq> (0::64 word)"
  proof -
    from assms(3,4) have "h - 100 < (2::nat) ^ 64" "0 < h - 100" by simp_all
    then have "unat (word_of_nat (h - 100) :: 64 word) \<noteq> 0"
      by (simp del: of_nat_diff add: unsigned_of_nat take_bit_nat_eq_self)
    then show ?thesis by (metis unsigned_0)
  qed
  moreover from assms(3,4) have "100 \<le> h - 1" "h - 1 \<le> 4196" "h \<noteq> 100" by arith+
  ultimately show ?thesis using assms(1,2)
    by (simp add: blockIsUnhealthy_def blockIsGenesis_def deepBlock_inj deepBlock_fields
        zeroHash_def deepChain_GetBlock v del: of_nat_diff)
qed

lemma deep_scan:
  assumes t: "headers s = headers (deepChain hp)" "bodies s = bodies (deepChain hp)"
    "canonical s = canonical (deepChain hp)" and g: "genesisBlock s = deepBlock 100"
    and v: "\<And>a b. ValidateHeader env s a b = None"
  shows "scanForward env s 1 None = Some (deepBlock 2149)"
proof -
  have n: "GetBlockByNumber s = GetBlockByNumber (deepChain hp)"
    using t by (rule GetBlockByNumber_cong)
  have b: "GetBlock s = GetBlock (deepChain hp)" using t(1,2) by (rule GetBlock_cong)
  have l1: "GetBlockByNumber s 1 = Some (deepBlock 101)"
    using deepChain_GetBlockByNumber(1) [of 1 hp] by (simp add: n)
  have l2: "GetBlockByNumber s 2049 = Some (deepBlock 2149)"
    using deepChain_GetBlockByNumber(1) [of 2049 hp] by (simp add: n)
  have l3: "GetBlockByNumber s 4097 = None"
    using deepChain_GetBlockByNumber(2) [of 4097 hp] by (simp add: n)
  have h1: "blockIsUnhealthy env s (Some (deepBlock 101)) = None"
    and h2: "blockIsUnhealthy env s (Some (deepBlock 2149)) = None"
    using deep_healthy [OF b g _ _ v] by simp_all
  have s3: "scanForward env s 4097 acc = acc" for acc
    by (subst scanForward.simps) (simp add: l3)
  have s2: "scanForward env s 2049 acc = Some (deepBlock 2149)" for acc
    by (subst scanForward.simps) (simp add: l2 h2 s3)
  show ?thesis
    by (subst scanForward.simps) (simp add: l1 h1 s2)
qed

lemma stalled_intact: "headIntact env (deepChain 100) (deepBlock 100)"
  by (simp add: headIntact_def deepChain_sel deepChain_GetBlock zeroHash_def
      blockIsUnhealthy_def blockIsGenesis_def stateNew_def deepBlock_fields)

lemma stalled_fromStore: "headerFromStore (deepChain 100)"
  by (simp add: headerFromStore_def GetHeader_def deepChain_sel zeroHash_def)

lemma stalled_heads:
  "currentBlock (loadHeads (deepBlock 100) (deepChain 100)) = Some (deepBlock 100)"
  "currentFastBlock (loadHeads (deepBlock 100) (deepChain 100)) = Some (deepBlock 100)"
  "hc_currentHeader (loadHeads (deepBlock 100) (deepChain 100)) = b_header (deepBlock 100)"
  by (simp_all add: loadHeads_tables loadHeads_heads GetHeader_def deepChain_sel
      deepChain_GetBlock zeroHash_def)

lemma stalled_check:
  "loadLastState (Suc k) env (deepChain 100) = Return (None, stalled)"
proof -
  from stalled_fromStore
  have "\<not> headsAtGenesis env (headerFromStore (deepChain 100)) (deepBlock 100)
            (loadHeads (deepBlock 100) (deepChain 100))"
    by (rule headerFromStore_skips)
  then show ?thesis
    by (simp add: loadLastStateCheck_intact [OF stalled_intact] stalled_def deepBlock_fields)
qed

lemma stalled_startup:
  assumes "NewHeaderChain env = NewHeaderChain quietEnv" and "BadHashes env = []"
  shows "NewBlockChain 7 env (deepDb 100) = Return (Inr stalled)"
proof -
  let ?g = "deepBlock 100"
  have n7: "(7::nat) = Suc 6" by simp
  have hc: "NewHeaderChain quietEnv (deepDb 100) = (Inr (b_header ?g, b_header ?g), deepDb 100)"
    by (simp add: quietEnv_def lookup_defs deepDb_def)
  have gb: "GetBlockByNumber (deepDb 100) 0 = Some ?g"
    using deepBlock_lookup [of 100] by (simp add: lookup_defs deepDb_def zeroHash_def)
  have ll: "loadLastState 7 env (deepChain 100) = Return (None, stalled)"
    unfolding n7 by (rule stalled_check)
  show ?thesis
    by (simp add: NewBlockChain_def assms hc gb deepChain_def [symmetric] ll)
qed

section \<open>WriteBlock: the fork choice\<close>

text \<open>
  Claim C1, as the code has it. For a block \<open>b\<close> whose parent's total difficulty
  \<open>ptd\<close> is stored, with \<open>mu\<close> free and a head block whose total difficulty
  \<open>localTd\<close> is stored, let \<open>externTd = ptd + b.difficulty\<close> and let \<open>r\<close> be
  the draw of \<open>mrand.Float64()\<close>. When \<open>externTd\<close> is neither greater than
  \<open>localTd\<close> nor equal to it with \<open>r < 0.5\<close>, WriteBlock returns SideStatTy and
  the given state with the block and its total difficulty written. Otherwise, when the
  parent of \<open>b\<close> is the head, it returns CanonStatTy and the state in which \<open>b\<close>
  was inserted as the head and then written. When the parent is not the head it runs
  \<open>reorg\<close> on the head and \<open>b\<close> first: if that returns no error, WriteBlock
  returns CanonStatTy and the state the reorg left, with \<open>b\<close> inserted and written;
  if it returns an error, WriteBlock returns NonStatTy, that error and the state the
  reorg left, in which the total difficulty and the block stored under the hash of
  \<open>b\<close> are what they were before the call. The reorg does return when every stored
  parent has a lower number than its child and the fuel exceeds the numbers of both
  blocks by two. Writing stores the total difficulty and the block under the hash of
  \<open>b\<close> and leaves the head and the canonical index alone; inserting makes \<open>b\<close>
  the head block and the canonical block of its height.
\<close>

theorem WriteBlock_fork_choice:
  fixes env :: env and fuel :: nat and s :: blockchain and b cur :: block
    and ptd localTd :: int and r :: real
  defines "externTd \<equiv> BlockDifficulty b + ptd"
  assumes ptd: "GetTd s (ParentHash b) = Some ptd"
    and free: "\<not> mu s"
    and cur: "currentBlock s = Some cur"
    and ltd: "GetTd s (BlockHash cur) = Some localTd"
  shows "(\<not> (externTd > localTd \<or> (externTd = localTd \<and> r < 0.5)) \<longrightarrow>
           WriteBlock env fuel r s b = Return (SideStatTy, None, writeBlockData b externTd s))
       \<and> ((externTd > localTd \<or> (externTd = localTd \<and> r < 0.5)) \<and> ParentHash b = BlockHash cur \<longrightarrow>
           WriteBlock env fuel r s b =
             Return (CanonStatTy, None, writeBlockData b externTd (insertBlock b s)))
       \<and> ((externTd > localTd \<or> (externTd = localTd \<and> r < 0.5)) \<and> ParentHash b \<noteq> BlockHash cur \<longrightarrow>
            (\<forall>s1. reorg env fuel s cur b = Return (None, s1) \<longrightarrow>
               WriteBlock env fuel r s b =
                 Return (CanonStatTy, None, writeBlockData b externTd (insertBlock b s1)))
          \<and> (\<forall>e s1. reorg env fuel s cur b = Return (Some e, s1) \<longrightarrow>
                 WriteBlock env fuel r s b = Return (NonStatTy, Some e, s1)
                 \<and> GetTd s1 (BlockHash b) = GetTd s (BlockHash b)
                 \<and> GetBlock s1 (BlockHash b) = GetBlock s (BlockHash b))
          \<and> (parentsLower s \<and> lowerParent s cur \<and> lowerParent s b
               \<and> unat (NumberU64 cur) + 1 < fuel \<and> unat (NumberU64 b) + 1 < fuel \<longrightarrow>
                 (\<exists>e s1. reorg env fuel s cur b = Return (e, s1))))
       \<and> (\<forall>x. GetTd (writeBlockData b externTd x) (BlockHash b) = Some externTd
              \<and> GetBlock (writeBlockData b externTd x) (BlockHash b) = Some b
              \<and> currentBlock (writeBlockData b externTd x) = currentBlock x
              \<and> canonical (writeBlockData b externTd x) = canonical x
              \<and> headBlockHash (writeBlockData b externTd x) = headBlockHash x)
       \<and> (\<forall>x. currentBlock (insertBlock b x) = Some b
              \<and> canonical (insertBlock b x) (NumberU64 b) = Some (BlockHash b)
              \<and> headBlockHash (insertBlock b x) = BlockHash b)"
proof (intro conjI impI allI)
  assume "\<not> (externTd > localTd \<or> (externTd = localTd \<and> r < 0.5))"
  then show "WriteBlock env fuel r s b = Return (SideStatTy, None, writeBlockData b externTd s)"
    using ptd free cur ltd by (auto simp: WriteBlock_def externTd_def Let_def)
next
  assume "(externTd > localTd \<or> (externTd = localTd \<and> r < 0.5)) \<and> ParentHash b = BlockHash cur"
  then show "WriteBlock env fuel r s b =
               Return (CanonStatTy, None, writeBlockData b externTd (insertBlock b s))"
    using ptd free cur ltd by (auto simp: WriteBlock_def externTd_def Let_def)
next
  fix s1
  assume "(externTd > localTd \<or> (externTd = localTd \<and> r < 0.5)) \<and> ParentHash b \<noteq> BlockHash cur"
    and "reorg env fuel s cur b = Return (None, s1)"
  then show "WriteBlock env fuel r s b =
               Return (CanonStatTy, None, writeBlockData b externTd (insertBlock b s1))"
    using ptd free cur ltd by (auto simp: WriteBlock_def externTd_def Let_def)
next
  fix e s1
  assume a: "(externTd > localTd \<or> (externTd = localTd \<and> r < 0.5)) \<and> ParentHash b \<noteq> BlockHash cur"
    and g: "reorg env fuel s cur b = Return (Some e, s1)"
  then show "WriteBlock env fuel r s b = Return (NonStatTy, Some e, s1)"
    using ptd free cur ltd by (auto simp: WriteBlock_def externTd_def Let_def)
  from reorg_keeps_blocks [OF g]
  show "GetTd s1 (BlockHash b) = GetTd s (BlockHash b)"
    and "GetBlock s1 (BlockHash b) = GetBlock s (BlockHash b)"
    by simp_all
next
  assume "parentsLower s \<and> lowerParent s cur \<and> lowerParent s b
          \<and> unat (NumberU64 cur) + 1 < fuel \<and> unat (NumberU64 b) + 1 < fuel"
  then show "\<exists>e s1. reorg env fuel s cur b = Return (e, s1)"
    by (intro reorg_returns) simp_all
next
  fix x
  show "GetTd (writeBlockData b externTd x) (BlockHash b) = Some externTd"
    by (rule GetTd_writeBlockData)
  show "GetBlock (writeBlockData b externTd x) (BlockHash b) = Some b"
    by (rule GetBlock_writeBlockData)
  show "currentBlock (writeBlockData b externTd x) = currentBlock x"
    and "canonical (writeBlockData b externTd x) = canonical x"
    and "headBlockHash (writeBlockData b externTd x) = headBlockHash x"
    by (simp_all add: heads_writeBlockData)
  show "currentBlock (insertBlock b x) = Some b"
    and "canonical (insertBlock b x) (NumberU64 b) = Some (BlockHash b)"
    and "headBlockHash (insertBlock b x) = BlockHash b"
    by (simp_all add: heads_insertBlock)
qed

text \<open>
  The theorem at the concrete chain: \<open>blkB2\<close> (total difficulty 26 against the head's
  20) is adopted after a reorg, and \<open>blkT1\<close>, which ties with the head, is adopted on
  the draw 0.3 and kept as a side block on the draw 0.7. On a store where
  \<open>WriteTransactions\<close> fails, the reorg for \<open>blkB2\<close> fails after \<open>insert\<close> has
  made it canonical: WriteBlock returns NonStatTy with that state, and the total
  difficulty of \<open>blkB2\<close> is not stored.
\<close>

theorem WriteBlock_fork_choice_witness:
  "GetTd forkChain (ParentHash blkB2) = Some 18 \<and> \<not> mu forkChain
   \<and> currentBlock forkChain = Some blkA1 \<and> GetTd forkChain (BlockHash blkA1) = Some 20
   \<and> ParentHash blkB2 \<noteq> BlockHash blkA1
   \<and> parentsLower forkChain \<and> lowerParent forkChain blkA1 \<and> lowerParent forkChain blkB2
   \<and> reorg quietEnv 5 forkChain blkA1 blkB2 = Return (None, afterReorgB2)
   \<and> WriteBlock quietEnv 5 0 forkChain blkB2 = Return (CanonStatTy, None, afterWriteB2)
   \<and> currentBlock afterWriteB2 = Some blkB2 \<and> canonical afterWriteB2 2 = Some 13
   \<and> GetTd afterWriteB2 13 = Some 26 \<and> GetBlock afterWriteB2 13 = Some blkB2
   \<and> (\<exists>s1. reorg quietEnv 5 forkChain blkA1 blkT1 = Return (None, s1)
          \<and> WriteBlock quietEnv 5 (3 / 10) forkChain blkT1
              = Return (CanonStatTy, None, writeBlockData blkT1 20 (insertBlock blkT1 s1)))
   \<and> WriteBlock quietEnv 5 (7 / 10) forkChain blkT1
       = Return (SideStatTy, None, writeBlockData blkT1 20 forkChain)
   \<and> reorg failingStore 5 forkChain blkA1 blkB2
       = Return (Some (OtherError 1), insertBlock blkB2 forkChain)
   \<and> WriteBlock failingStore 5 0 forkChain blkB2
       = Return (NonStatTy, Some (OtherError 1), insertBlock blkB2 forkChain)
   \<and> canonical (insertBlock blkB2 forkChain) 2 = Some 13
   \<and> GetTd (insertBlock blkB2 forkChain) 13 = None"
proof -
  have h: "GetTd forkChain (ParentHash blkB2) = Some 18" "\<not> mu forkChain"
    "currentBlock forkChain = Some blkA1" "GetTd forkChain (BlockHash blkA1) = Some 20"
    "GetTd forkChain (ParentHash blkT1) = Some 10"
    by (simp_all add: blk_defs forkChain_tds forkChain_heads)
  have d: "BlockDifficulty blkB2 = 8" "BlockDifficulty blkT1 = 10"
    "ParentHash blkB2 \<noteq> BlockHash blkA1" "ParentHash blkT1 \<noteq> BlockHash blkA1"
    "BlockHash blkB2 = 13" "NumberU64 blkB2 = 2" "NumberU64 blkA1 = 1"
    by (simp_all add: blk_defs)
  note pl = forkChain_parentsLower forkChain_lowerParent_A1 forkChain_lowerParent_B2
  have "\<exists>sT. reorg quietEnv 5 forkChain blkA1 blkT1 = Return (None, sT)"
  proof -
    let ?acc = "\<lparr>newChain = [blkT1], oldChain = [blkA1], deletedTxs = [],
                  deletedLogs = [], deletedLogsByHash = Map.empty\<rparr>"
    have "reorgApply quietEnv ?acc forkChain = (None, snd (reorgApply quietEnv ?acc forkChain))"
      using reorgApply_quiet_fst [of ?acc forkChain]
      by (cases "reorgApply quietEnv ?acc forkChain") simp
    then have "reorg quietEnv 5 forkChain blkA1 blkT1
                 = Return (None, snd (reorgApply quietEnv ?acc forkChain))"
      by (simp only: reorg_def forkChain_walk_T1 outcome.case sum.case prod.case)
    then show ?thesis by (rule exI)
  qed
  then obtain sT where rT: "reorg quietEnv 5 forkChain blkA1 blkT1 = Return (None, sT)" ..
  note a = WriteBlock_fork_choice [OF h(1) h(2) h(3) h(4), where env = quietEnv and fuel = 5 and r = 0]
  note b = WriteBlock_fork_choice [OF h(5) h(2) h(3) h(4), where env = quietEnv and fuel = 5
      and r = "3 / 10"]
  note c = WriteBlock_fork_choice [OF h(5) h(2) h(3) h(4), where env = quietEnv and fuel = 5
      and r = "7 / 10"]
  note f = WriteBlock_fork_choice [OF h(1) h(2) h(3) h(4), where env = failingStore and fuel = 5
      and r = 0]
  from f forkChain_reorg_fails
  have wf: "WriteBlock failingStore 5 0 forkChain blkB2
              = Return (NonStatTy, Some (OtherError 1), insertBlock blkB2 forkChain)"
    "GetTd (insertBlock blkB2 forkChain) 13 = None"
    by (simp_all add: d forkChain_tds)
  from a have cf: "canonical (insertBlock blkB2 forkChain) 2 = Some 13"
    by (simp add: d)
  from a pl have "\<exists>e s1. reorg quietEnv 5 forkChain blkA1 blkB2 = Return (e, s1)"
    by (simp add: d)
  moreover from a forkChain_reorg_B2
  have w2: "WriteBlock quietEnv 5 0 forkChain blkB2 = Return (CanonStatTy, None, afterWriteB2)"
    by (simp add: d afterWriteB2_def)
  moreover from a have "GetTd afterWriteB2 13 = Some 26" "GetBlock afterWriteB2 13 = Some blkB2"
    unfolding afterWriteB2_def by (simp_all add: d)
  moreover from b rT
  have "WriteBlock quietEnv 5 (3 / 10) forkChain blkT1
          = Return (CanonStatTy, None, writeBlockData blkT1 20 (insertBlock blkT1 sT))"
    by (simp add: d)
  moreover from c
  have "WriteBlock quietEnv 5 (7 / 10) forkChain blkT1
          = Return (SideStatTy, None, writeBlockData blkT1 20 forkChain)"
    by (simp add: d)
  ultimately show ?thesis
    using h(1-4) pl d(3) rT forkChain_reorg_B2 afterWriteB2_sel(1,3) forkChain_reorg_fails wf cf
    by (intro conjI exI [of _ sT]) simp_all
qed

text \<open>
  Claim C1 as it is written fails where the reorg fails: \<open>blkB3\<close> has a parent whose
  total difficulty is stored (40) and a greater total difficulty than the head, but the
  parent block itself is not in the store. WriteBlock returns NonStatTy with the error
  of \<open>reorg\<close>, and neither the block nor its total difficulty is in the store.
\<close>

theorem WriteBlock_failed_reorg_skips_writes:
  "GetTd forkChain (ParentHash blkB3) = Some 40
   \<and> currentBlock forkChain = Some blkA1 \<and> GetTd forkChain (BlockHash blkA1) = Some 20
   \<and> BlockDifficulty blkB3 + 40 > 20
   \<and> WriteBlock quietEnv 5 0 forkChain blkB3 = Return (NonStatTy, Some InvalidNewChain, forkChain)
   \<and> GetTd forkChain (BlockHash blkB3) = None
   \<and> GetBlock forkChain (BlockHash blkB3) = None"
  using forkChain_blocks forkChain_tds forkChain_heads
  by (simp add: WriteBlock_def reorg_def reorgWalk_def blk_defs GetBlock_def GetHeader_def forkChain_def)

section \<open>InsertChain on a batch that is not contiguous\<close>

lemma checkContiguous_Some:
  "checkContiguous n xs = Some j \<Longrightarrow>
     n \<le> j \<and> Suc (j - n) < length xs \<and> breaksAt xs (Suc (j - n))
     \<and> (\<forall>k. 1 \<le> k \<and> k < Suc (j - n) \<longrightarrow> \<not> breaksAt xs k)"
proof (induction n xs arbitrary: j rule: checkContiguous.induct)
  case (1 i p b rest)
  show ?case
  proof (cases "NumberU64 b \<noteq> NumberU64 p + 1 \<or> ParentHash b \<noteq> BlockHash p")
    case True
    with "1.prems" have "j = i" by simp
    with True show ?thesis by (auto simp: breaksAt_def)
  next
    case False
    with "1.prems" have r: "checkContiguous (Suc i) (b # rest) = Some j" by simp
    from "1.IH" [OF False r] have ih: "Suc i \<le> j" "Suc (j - Suc i) < length (b # rest)"
      "breaksAt (b # rest) (Suc (j - Suc i))"
      "\<forall>k. 1 \<le> k \<and> k < Suc (j - Suc i) \<longrightarrow> \<not> breaksAt (b # rest) k"
      by auto
    from ih(1) have e: "Suc (j - i) = Suc (Suc (j - Suc i))" by simp
    have sh: "\<And>k. 1 \<le> k \<Longrightarrow> breaksAt (p # b # rest) (Suc k) = breaksAt (b # rest) k"
      by (auto simp: breaksAt_def nth_Cons split: nat.splits)
    have n1: "\<not> breaksAt (p # b # rest) 1" using False by (simp add: breaksAt_def)
    have "\<forall>k. 1 \<le> k \<and> k < Suc (j - i) \<longrightarrow> \<not> breaksAt (p # b # rest) k"
    proof (intro allI impI)
      fix k assume k: "1 \<le> k \<and> k < Suc (j - i)"
      show "\<not> breaksAt (p # b # rest) k"
      proof (cases "k = 1")
        case True then show ?thesis using n1 by simp
      next
        case False
        then obtain k' where k': "k = Suc k'" "1 \<le> k'" using k by (cases k) auto
        with k e have "k' < Suc (j - Suc i)" by simp
        with ih(4) k' have "\<not> breaksAt (b # rest) k'" by simp
        with sh [OF k'(2)] k' show ?thesis by simp
      qed
    qed
    moreover have "breaksAt (p # b # rest) (Suc (j - i))"
      using ih(3) sh [of "Suc (j - Suc i)"] e by simp
    ultimately show ?thesis using ih(1,2) e by simp
  qed
qed simp_all

lemma checkContiguous_None:
  "checkContiguous n xs = None \<Longrightarrow> 1 \<le> k \<Longrightarrow> k < length xs \<Longrightarrow> \<not> breaksAt xs k"
proof (induction n xs arbitrary: k rule: checkContiguous.induct)
  case (1 i p b rest)
  then have nb: "\<not> (NumberU64 b \<noteq> NumberU64 p + 1 \<or> ParentHash b \<noteq> BlockHash p)"
    and r: "checkContiguous (Suc i) (b # rest) = None"
    by (auto split: if_splits)
  show ?case
  proof (cases "k = 1")
    case True then show ?thesis using nb by (simp add: breaksAt_def)
  next
    case False
    then obtain k' where k': "k = Suc k'" "1 \<le> k'" using "1.prems" by (cases k) auto
    then have "k' < length (b # rest)" using "1.prems" by simp
    from "1.IH" [OF nb r k'(2) this] have "\<not> breaksAt (b # rest) k'" .
    moreover have "breaksAt (p # b # rest) (Suc k') = breaksAt (b # rest) k'"
      using k'(2) by (auto simp: breaksAt_def nth_Cons split: nat.splits)
    ultimately show ?thesis using k' by simp
  qed
qed simp_all

text \<open>
  Claim C2. When some index \<open>i \<ge> 1\<close> of the batch has a number other than its
  predecessor's plus one, or a parent hash other than its predecessor's hash, InsertChain
  returns index 0 and the non-contiguity error that names the first such index \<open>j\<close>
  (and \<open>j - 1\<close>), and the state it returns is the state it was given: no write, no
  processing, no goroutine.
\<close>

theorem InsertChain_non_contiguous:
  assumes "1 \<le> i" and "i < length chain"
    and "NumberU64 (chain ! i) \<noteq> NumberU64 (chain ! (i - 1)) + 1
         \<or> ParentHash (chain ! i) \<noteq> BlockHash (chain ! (i - 1))"
  shows "\<exists>j. 1 \<le> j \<and> j \<le> i \<and> breaksAt chain j
            \<and> (\<forall>k. 1 \<le> k \<and> k < j \<longrightarrow> \<not> breaksAt chain k)
            \<and> InsertChain env fuel s chain = Return (0, Some (NonContiguous (j - 1) j), s)"
proof (cases "checkContiguous 1 chain")
  case None
  from checkContiguous_None [OF None assms(1,2)] assms(3) show ?thesis
    by (simp add: breaksAt_def)
next
  case (Some j)
  from checkContiguous_Some [OF Some]
  have j: "1 \<le> j" "j < length chain" "breaksAt chain j"
    "\<forall>k. 1 \<le> k \<and> k < j \<longrightarrow> \<not> breaksAt chain k"
    by auto
  have "j \<le> i"
  proof (rule ccontr)
    assume "\<not> j \<le> i"
    then have "i < j" by simp
    with j(4) assms(1) have "\<not> breaksAt chain i" by simp
    with assms(3) show False by (simp add: breaksAt_def)
  qed
  with j Some show ?thesis by (auto simp: InsertChain_def)
qed


text \<open>The theorem at the batch of a block 1 followed by a block 3.\<close>

theorem InsertChain_non_contiguous_witness:
  "(1::nat) \<le> 1 \<and> 1 < length [blkA1, blkB3]
   \<and> NumberU64 ([blkA1, blkB3] ! 1) \<noteq> NumberU64 ([blkA1, blkB3] ! (1 - 1)) + 1
   \<and> InsertChain quietEnv 5 forkChain [blkA1, blkB3]
       = Return (0, Some (NonContiguous 0 1), forkChain)"
proof -
  have n: "NumberU64 ([blkA1, blkB3] ! 1) \<noteq> NumberU64 ([blkA1, blkB3] ! (1 - 1)) + 1"
    by (simp add: blk_defs)
  from InsertChain_non_contiguous [of 1 "[blkA1, blkB3]" quietEnv 5 forkChain] n
  obtain j where j: "1 \<le> j" "j \<le> 1"
    and r: "InsertChain quietEnv 5 forkChain [blkA1, blkB3]
            = Return (0, Some (NonContiguous (j - 1) j), forkChain)"
    by auto
  from j have "j = 1" by simp
  with r n show ?thesis by simp
qed

section \<open>loadLastState: the forward scan\<close>

text \<open>
  Claim C3 at a store whose three head pointers name the genesis block and which holds
  canonical blocks at the heights 0 to 4096, all healthy. The head block, the head fast
  block and the head header resolve to the genesis block, and the scan from height 1
  would yield the block of height 2049. The head header is read from the store, so the
  pointer test before the scan fails whatever \<open>Header()\<close> returns; startup does not
  scan and does not call SetHead: it returns with the three heads at the genesis block
  and the canonical index as it was.
\<close>

theorem startup_skips_forward_scan:
  fixes p :: "block \<Rightarrow> block \<Rightarrow> bool"
  shows "headBlockHash (deepDb 100) = BlockHash (deepBlock 100)
   \<and> headHeaderHash (deepDb 100) = BlockHash (deepBlock 100)
   \<and> headFastBlockHash (deepDb 100) = BlockHash (deepBlock 100)
   \<and> GetBlockByNumber (deepDb 100) 0 = Some (deepBlock 100)
   \<and> GetBlockByNumber (deepChain 100) 2049 = Some (deepBlock 2149)
   \<and> blockIsUnhealthy (quietEnv\<lparr>SameHeaderPointer := p\<rparr>) (deepChain 100)
         (Some (deepBlock 2149)) = None
   \<and> scanForward (quietEnv\<lparr>SameHeaderPointer := p\<rparr>)
         (loadHeads (deepBlock 100) (deepChain 100)) 1 None = Some (deepBlock 2149)
   \<and> NewBlockChain 7 (quietEnv\<lparr>SameHeaderPointer := p\<rparr>) (deepDb 100) = Return (Inr stalled)
   \<and> currentBlock stalled = Some (deepBlock 100)
   \<and> currentFastBlock stalled = Some (deepBlock 100)
   \<and> hc_currentHeader stalled = b_header (deepBlock 100)
   \<and> NumberU64 (deepBlock 100) = 0
   \<and> canonical stalled 2049 = Some (BlockHash (deepBlock 2149))
   \<and> canonical stalled 4096 = Some (BlockHash (deepBlock 4196))"
proof -
  let ?env = "quietEnv\<lparr>SameHeaderPointer := p\<rparr>"
  let ?s1 = "loadHeads (deepBlock 100) (deepChain 100)"
  have vq: "ValidateHeader quietEnv s a b = None" for s a b by (simp add: quietEnv_def)
  then have v: "ValidateHeader ?env s a b = None" for s a b by simp
  have e: "NewHeaderChain ?env = NewHeaderChain quietEnv" "BadHashes ?env = []"
    by (simp_all add: quietEnv_def)
  have "headBlockHash (deepDb 100) = 100" "headHeaderHash (deepDb 100) = 100"
    "headFastBlockHash (deepDb 100) = 100"
    by (simp_all add: deepDb_def)
  moreover have "GetBlockByNumber (deepDb 100) 0 = Some (deepBlock 100)"
    using deepBlock_lookup [of 100] by (simp add: lookup_defs deepDb_def zeroHash_def)
  moreover have "GetBlockByNumber (deepChain 100) 2049 = Some (deepBlock 2149)"
    using deepChain_GetBlockByNumber(1) [of 2049 100] by simp
  moreover have "blockIsUnhealthy ?env (deepChain 100) (Some (deepBlock 2149)) = None"
    by (rule deep_healthy [of _ 100]) (simp_all add: deepChain_sel vq)
  moreover have "scanForward ?env ?s1 1 None = Some (deepBlock 2149)"
    by (rule deep_scan [of _ 100]) (simp_all add: loadHeads_tables deepChain_sel vq)
  moreover have "NewBlockChain 7 ?env (deepDb 100) = Return (Inr stalled)"
    by (rule stalled_startup [OF e])
  moreover have "currentBlock stalled = Some (deepBlock 100)"
    "currentFastBlock stalled = Some (deepBlock 100)"
    "hc_currentHeader stalled = b_header (deepBlock 100)"
    by (simp_all add: stalled_def stalled_heads)
  moreover have "canonical stalled 2049 = Some 2149" "canonical stalled 4096 = Some 4196"
    by (simp_all add: stalled_def loadHeads_tables deepChain_sel)
  ultimately show ?thesis by (simp add: deepBlock_fields)
qed

text \<open>
  With the head pointers absent and the same canonical blocks, \<open>loadLastState\<close> resets
  the chain before it reads any other pointer: startup returns with the genesis block
  as head block and head header, and the block of height 4096 is neither canonical nor
  in the store.
\<close>

lemma startup_without_head_pointers:
  "headBlockHash (deepDb 0) = zeroHash \<and> headHeaderHash (deepDb 0) = zeroHash
   \<and> headFastBlockHash (deepDb 0) = zeroHash
   \<and> GetBlockByNumber (deepDb 0) 4096 = Some (deepBlock 4196)
   \<and> blockIsUnhealthy quietEnv (deepChain 0) (Some (deepBlock 4196)) = None
   \<and> NewBlockChain 7 quietEnv (deepDb 0) = Return (Inr purged)
   \<and> currentBlock purged = Some (deepBlock 100) \<and> NumberU64 (deepBlock 100) = 0
   \<and> hc_currentHeader purged = b_header (deepBlock 100)
   \<and> GetBlockByNumber purged 4096 = None \<and> GetBlock purged 4196 = None"
proof -
  let ?X = "(loadHeads (deepBlock 100) (SetHeadRewind 0 ((deepChain 0)\<lparr>mu := True\<rparr>)))
              \<lparr>stateCache := Some 100, mu := False\<rparr>"
  note r = resetRewind_sel
  have c: "canonical purged 4096 = None"
    by (simp add: purged_def resetGenesis_sel loadHeads_tables r deepBlock_fields)
  have h: "headers purged 4196 = None"
    by (simp add: purged_def resetGenesis_sel loadHeads_tables r deepBlock_fields)
  have "GetBlockByNumber (deepDb 0) 4096 = Some (deepBlock 4196)"
    using deepBlock_lookup [of 4196] by (simp add: lookup_defs deepDb_def zeroHash_def)
  moreover have "blockIsUnhealthy quietEnv (deepChain 0) (Some (deepBlock 4196)) = None"
    by (simp add: blockIsUnhealthy_def blockIsGenesis_def deepChain_sel deepBlock_inj
        deepBlock_fields zeroHash_def deepChain_GetBlock quietEnv_def)
  moreover have "GetBlockByNumber purged 4096 = None"
    by (simp add: GetBlockByNumber_def GetCanonicalHash_def c)
  moreover have "GetBlock purged 4196 = None" by (simp add: GetBlock_def GetHeader_def h)
  moreover have "currentBlock purged = Some (deepBlock 100)"
    "hc_currentHeader purged = b_header (deepBlock 100)"
    by (simp_all add: purged_def resetGenesis_sel)
  moreover have "headBlockHash (deepDb 0) = zeroHash" "headHeaderHash (deepDb 0) = zeroHash"
    "headFastBlockHash (deepDb 0) = zeroHash"
    by (simp_all add: deepDb_def zeroHash_def)
  ultimately show ?thesis by (simp add: reset_startup deepBlock_fields)
qed

section \<open>reorg: the order of the insertions\<close>

text \<open>
  Claim C4 at the concrete chain. The head is \<open>blkA1\<close> and \<open>blkB2\<close> (number 2)
  arrives on the stored side block \<open>blkB1\<close> (number 1). The walk of \<open>reorg\<close>
  collects \<open>blkB2\<close> before \<open>blkB1\<close> and they are inserted in that order, the
  highest first: both become canonical, and when \<open>reorg\<close> returns the head block, the
  head header and the head fast block are \<open>blkB1\<close>. \<open>WriteBlock\<close> then inserts
  \<open>blkB2\<close>, which is canonical at its height already, so only the head block moves:
  WriteBlock returns CanonStatTy with the head block \<open>blkB2\<close> and with the head
  header and the head fast block, and their stored hashes, still at \<open>blkB1\<close>, one
  below the head block.
\<close>

theorem WriteBlock_reorg_leaves_header_behind:
  "currentBlock forkChain = Some blkA1
   \<and> reorgWalk 5 forkChain blkA1 blkB2 = Return (Inr (blkG, accB2))
   \<and> newChain accB2 = [blkB2, blkB1] \<and> NumberU64 blkB1 < NumberU64 blkB2
   \<and> reorg quietEnv 5 forkChain blkA1 blkB2 = Return (None, afterReorgB2)
   \<and> canonical afterReorgB2 1 = Some (BlockHash blkB1)
   \<and> canonical afterReorgB2 2 = Some (BlockHash blkB2)
   \<and> currentBlock afterReorgB2 = Some blkB1
   \<and> hc_currentHeader afterReorgB2 = b_header blkB1
   \<and> currentFastBlock afterReorgB2 = Some blkB1
   \<and> WriteBlock quietEnv 5 0 forkChain blkB2 = Return (CanonStatTy, None, afterWriteB2)
   \<and> currentBlock afterWriteB2 = Some blkB2 \<and> headBlockHash afterWriteB2 = BlockHash blkB2
   \<and> hc_currentHeader afterWriteB2 = b_header blkB1
   \<and> headHeaderHash afterWriteB2 = BlockHash blkB1
   \<and> currentFastBlock afterWriteB2 = Some blkB1
   \<and> headFastBlockHash afterWriteB2 = BlockHash blkB1
   \<and> h_number (hc_currentHeader afterWriteB2) < NumberU64 blkB2"
proof -
  have w: "reorgWalk 5 forkChain blkA1 blkB2 = Return (Inr (blkG, accB2))"
    using forkChain_walk_B2 by (simp add: accB2_def)
  have d: "BlockHash blkB1 = 12" "BlockHash blkB2 = 13" "NumberU64 blkB1 = 1" "NumberU64 blkB2 = 2"
    "h_number (b_header blkB1) = 1" "ParentHash blkB2 = 12" "BlockHash blkA1 = 11"
    "BlockDifficulty blkB2 = 8"
    by (simp_all add: blk_defs)
  have "WriteBlock quietEnv 5 0 forkChain blkB2 = Return (CanonStatTy, None, afterWriteB2)"
    by (simp add: WriteBlock_def forkChain_tds forkChain_sel d forkChain_reorg_B2
        afterWriteB2_def Let_def)
  with w show ?thesis
    by (simp add: forkChain_sel accB2_def forkChain_reorg_B2 afterReorgB2_sel afterWriteB2_sel d)
qed

section \<open>InsertChain: a block that fails stage 1 validation\<close>

text \<open>
  Claim C5, as the code has it. Take an iteration of the insertion loop for block
  \<open>i\<close> that is not interrupted, has its nonce result, passes the header check and
  whose validation yields \<open>err\<close>, with a clock at least 30 seconds before the end of
  \<open>int64\<close>. A known-block error counts the block as ignored and the loop goes on.
  A future-block error with \<open>block.time \<le> now + 30\<close> parks the block in the
  future-blocks LRU, counts it as queued, and the loop goes on; with a later time
  InsertChain returns index \<open>i\<close> and an error. A parent error whose parent is parked
  parks the block as well. Every other error ends the batch with index \<open>i\<close> and
  that error. A parked block is in the LRU, which does not grow beyond 256 entries.
\<close>

theorem InsertChain_validation_errors:
  fixes l :: insert_locals and checked :: "bool list" and q :: "(nat \<times> bool) list"
    and s :: blockchain and b :: block
  defines "l1 \<equiv> l\<lparr>nonceChecked := checked, nonceResults := q\<rparr>"
  defines "parked \<equiv> s\<lparr>futureBlocks := lruAdd 256 (BlockHash b) b (futureBlocks s)\<rparr>"
  defines "queued \<equiv> l1\<lparr>stats := (stats l1)\<lparr>st_queued := Suc (st_queued (stats l1))\<rparr>\<rparr>"
  assumes ni: "\<not> procInterrupt s"
    and nonce: "awaitNonce i (nonceChecked l) (nonceResults l) = Return (Inr (checked, q))"
    and hc: "HeaderCheck env (b_header b) = None"
    and v: "ValidateBlock env s b = Some err"
    and clock: "sint (unixNow env i) \<le> 2 ^ 63 - 31"
  shows "insertLoop env fuel chain i (b # rest) s l =
          (if err = KnownBlockError
           then insertLoop env fuel chain (Suc i) rest s
                  (l1\<lparr>stats := (stats l1)\<lparr>st_ignored := Suc (st_ignored (stats l1))\<rparr>\<rparr>)
           else if err = BlockFutureErr
           then (if BlockTime b \<le> sint (unixNow env i) + 30
                 then insertLoop env fuel chain (Suc i) rest parked queued
                 else Return (i, Some (BlockFutureTooFar (BlockTime b) (sint (unixNow env i) + 30)), s))
           else if (\<exists>h. err = ParentError h) \<and> ParentHash b \<in> fst ` set (futureBlocks s)
           then insertLoop env fuel chain (Suc i) rest parked queued
           else Return (i, Some err, s))
         \<and> lruContains (BlockHash b) (futureBlocks parked)
         \<and> length (futureBlocks parked) \<le> max 256 (length (futureBlocks s))"
proof -
  have p: "IsParentErr err = (\<exists>h. err = ParentError h)"
    by (cases err) (simp_all add: IsParentErr_def)
  have t: "sint (unixNow env i + maxTimeFutureBlocks) = sint (unixNow env i) + 30"
    using clock by (simp add: maxTimeFutureBlocks_def sint_add_30)
  have step: "insertIter env fuel chain i b s l = Return (onValidateError env i b err s l1)"
    using nonce hc v by (simp add: insertIter_def andThen_def l1_def)
  have "insertLoop env fuel chain i (b # rest) s l =
          (case onValidateError env i b err s l1 of
             Next s' l' \<Rightarrow> insertLoop env fuel chain (Suc i) rest s' l'
           | Stop j e s' \<Rightarrow> Return (j, Some e, s'))"
    using ni step by (simp add: andThen_def)
  moreover have "onValidateError env i b err s l1 =
          (if err = KnownBlockError
           then Next s (l1\<lparr>stats := (stats l1)\<lparr>st_ignored := Suc (st_ignored (stats l1))\<rparr>\<rparr>)
           else if err = BlockFutureErr
           then (if BlockTime b \<le> sint (unixNow env i) + 30
                 then Next parked queued
                 else Stop i (BlockFutureTooFar (BlockTime b) (sint (unixNow env i) + 30)) s)
           else if (\<exists>h. err = ParentError h) \<and> ParentHash b \<in> fst ` set (futureBlocks s)
           then Next parked queued
           else Stop i err s)"
    unfolding onValidateError_def p t
    by (auto simp: IsKnownBlockErr_def park_def Let_def lruContains_def maxFutureBlocks_def
        parked_def queued_def)
  ultimately show ?thesis
    by (auto simp: parked_def lruAdd_contains lruAdd_length)
qed


text \<open>
  The theorem at a validator that answers with the future-block error, under a clock
  at 1000: the block stamped 1020 is parked, the block stamped 1031 ends the batch.
\<close>

theorem InsertChain_validation_errors_witness:
  "\<not> procInterrupt forkChain
   \<and> ValidateBlock (answering BlockFutureErr) forkChain blkF = Some BlockFutureErr
   \<and> sint (unixNow (answering BlockFutureErr) 0) \<le> 2 ^ 63 - 31
   \<and> BlockTime blkF = 1020 \<and> BlockTime blkL = 1031
   \<and> InsertChain (answering BlockFutureErr) 5 forkChain [blkF]
       = Return (0, None, forkChain\<lparr>futureBlocks := [(17, blkF)],
                                     goroutines := [PostChainEvents [] []]\<rparr>)
   \<and> InsertChain (answering BlockFutureErr) 5 forkChain [blkL]
       = Return (0, Some (BlockFutureTooFar 1031 1030), forkChain)"
proof -
  have ni: "\<not> procInterrupt forkChain" by (simp add: forkChain_def)
  have fb: "futureBlocks forkChain = []" "goroutines forkChain = []"
    by (simp_all add: forkChain_def)
  have nonce: "\<And>b. awaitNonce 0 (nonceChecked (initLocals (answering BlockFutureErr) [b]))
                 (nonceResults (initLocals (answering BlockFutureErr) [b]))
               = Return (Inr ([True], []))"
    by (simp add: initLocals_one)
  have clock: "sint (unixNow (answering BlockFutureErr) 0) \<le> 2 ^ 63 - 31"
    by (simp add: answering_fields)
  note f = InsertChain_validation_errors [where b = blkF and fuel = 5 and chain = "[blkF]"
      and rest = "[]", OF ni nonce answering_fields(1) answering_fields(2) clock]
  note g = InsertChain_validation_errors [where b = blkL and fuel = 5 and chain = "[blkL]"
      and rest = "[]", OF ni nonce answering_fields(1) answering_fields(2) clock]
  have tf: "BlockTime blkF = 1020" "BlockTime blkL = 1031" "BlockHash blkF = 17"
    by (simp_all add: blkF_def blkL_def)
  show ?thesis
    using f g ni clock tf fb
    by (simp add: InsertChain_def answering_fields finishInsert_def spawn_def lruAdd_def
        initLocals_one)
qed

text \<open>
  Claim C5 as it is written has every validation error other than the two parked kinds
  end the batch with \<open>(i, error)\<close>. The known-block error is neither of them, and
  InsertChain skips the block and returns no error.
\<close>

theorem InsertChain_known_block_is_skipped:
  "ValidateBlock (answering KnownBlockError) forkChain blkB2 = Some KnownBlockError
   \<and> KnownBlockError \<noteq> BlockFutureErr \<and> \<not> IsParentErr KnownBlockError
   \<and> InsertChain (answering KnownBlockError) 5 forkChain [blkB2]
       = Return (0, None, forkChain\<lparr>goroutines := [PostChainEvents [] []]\<rparr>)"
proof -
  have "goroutines forkChain = []" "\<not> procInterrupt forkChain"
    by (simp_all add: forkChain_def)
  then show ?thesis
    by (simp add: InsertChain_def insertIter_def andThen_def initLocals_one answering_fields
        onValidateError_def IsKnownBlockErr_def IsParentErr_def finishInsert_def spawn_def)
qed


section \<open>The interrupt flag\<close>

lemma runTasks_interrupted:
  "procInterrupt s \<Longrightarrow> runTasks env i tasks s st = Return (s, st, None)"
  by (cases tasks) (auto simp: receiptTask_def andThen_def)

text \<open>
  Claim C6. With the interrupt flag set, the insertion loop stops at the start of its
  next iteration, whatever the index, the blocks left and the statistics so far: it
  returns index 0 and no error, and the state is the one the iteration started from,
  plus the goroutine that posts the events queued so far. InsertChain as a whole, on a
  contiguous batch, returns index 0 and no error with nothing written.
  InsertReceiptChain returns index 0 and no error and the state it was given: no write,
  and the fast-sync head pointer is not updated.
\<close>

theorem interrupt_returns_zero_nil:
  assumes "procInterrupt s"
  shows "insertLoop env fuel chain i rest s l
           = Return (0, None,
               s\<lparr>goroutines := goroutines s @ [PostChainEvents (events l) (coalescedLogs l)]\<rparr>)
         \<and> (checkContiguous 1 chain = None \<longrightarrow>
              InsertChain env fuel s chain
                = Return (0, None, s\<lparr>goroutines := goroutines s @ [PostChainEvents [] []]\<rparr>))
         \<and> InsertReceiptChain env s blockChain receiptChain = Return (0, None, s)"
proof -
  have a: "\<And>rest l. insertLoop env fuel chain i rest s l
           = Return (0, None,
               s\<lparr>goroutines := goroutines s @ [PostChainEvents (events l) (coalescedLogs l)]\<rparr>)"
    subgoal for rest l
      using assms by (cases rest) (simp_all add: finishInsert_def spawn_def)
    done
  have a0: "\<And>rest l. insertLoop env fuel chain 0 rest s l
           = Return (0, None,
               s\<lparr>goroutines := goroutines s @ [PostChainEvents (events l) (coalescedLogs l)]\<rparr>)"
    subgoal for rest l
      using assms by (cases rest) (simp_all add: finishInsert_def spawn_def)
    done
  have b: "InsertReceiptChain env s blockChain receiptChain = Return (0, None, s)"
    using assms by (simp add: InsertReceiptChain_def runTasks_interrupted andThen_def)
  show ?thesis
    using a a0 b by (simp add: InsertChain_def initLocals_def)
qed

text \<open>The theorem at the concrete chain with the flag set.\<close>

theorem interrupt_returns_zero_nil_witness:
  "procInterrupt interrupted
   \<and> InsertChain quietEnv 5 interrupted [blkB2]
       = Return (0, None, interrupted\<lparr>goroutines := [PostChainEvents [] []]\<rparr>)
   \<and> InsertReceiptChain quietEnv interrupted [blkB2] [[]] = Return (0, None, interrupted)"
proof -
  have p: "procInterrupt interrupted" by (simp add: interrupted_def)
  have g: "goroutines interrupted = []" by (simp add: interrupted_def forkChain_def)
  from interrupt_returns_zero_nil [OF p, of quietEnv 5 "[blkB2]" 0 "[]" "initLocals quietEnv [blkB2]" "[blkB2]" "[[]]"]
  show ?thesis using p g by simp
qed

section \<open>SetHead\<close>

text \<open>
  Claim C7. Whenever SetHead(n) returns on a consistent store (headers filed under their
  hash, canonical headers carrying the number of their height, genesis at number 0):
  no height above n has a canonical hash; every hash that was canonical above n has
  lost its header, its total difficulty and its body; the head block has a number of at
  most n, its state is present, and it is the block the stored head hash names; and
  when the rewound head's block or its state is missing, the head block has the hash of
  the genesis block. The deletions are those of HeaderChain.SetHead as section 4.B of
  the specification describes it.
\<close>

theorem SetHead_rewinds:
  assumes ret: "SetHead fuel env n s = Return (e, s')"
    and wf: "consistent s"
  shows "(\<forall>k. n < k \<longrightarrow> canonical s' k = None)
       \<and> (\<forall>k h. n < k \<longrightarrow> canonical s k = Some h \<longrightarrow>
             headers s' h = None \<and> tds s' h = None \<and> bodies s' h = None)
       \<and> (\<exists>cur. currentBlock s' = Some cur \<and> NumberU64 cur \<le> n
             \<and> stateNew s' (BlockRoot cur) \<and> headBlockHash s' = BlockHash cur
             \<and> (headChoice n s = None \<longrightarrow> BlockHash cur = BlockHash (genesisBlock s)))"
proof -
  let ?R = "SetHeadRewind n (s\<lparr>mu := True\<rparr>)"
  from SetHead_Return [OF ret] obtain s2 where
    chk: "loadLastStateCheck env ?R = Done e s2" and s': "s' = s2\<lparr>mu := False\<rparr>"
    by auto
  from loadLastStateCheck_Done [OF chk] obtain cur where
    g: "GetBlock ?R (headBlockHash ?R) = Some cur"
    and st: "stateNew ?R (BlockRoot cur)"
    and cb: "currentBlock s2 = Some cur"
    and t: "headers s2 = headers ?R" "bodies s2 = bodies ?R" "tds s2 = tds ?R"
      "canonical s2 = canonical ?R" "stateRoots s2 = stateRoots ?R"
      "headBlockHash s2 = headBlockHash ?R"
    by auto
  have c1: "\<forall>k. n < k \<longrightarrow> canonical s' k = None"
    by (simp add: s' t SetHeadRewind_sel hc_SetHead_sel)
  have c2: "\<forall>k h. n < k \<longrightarrow> canonical s k = Some h \<longrightarrow>
             headers s' h = None \<and> tds s' h = None \<and> bodies s' h = None"
  proof (intro allI impI)
    fix k h
    assume "n < k" "canonical s k = Some h"
    then have "aboveHead s n h" unfolding aboveHead_def by blast
    then show "headers s' h = None \<and> tds s' h = None \<and> bodies s' h = None"
      by (simp add: s' t SetHeadRewind_sel hc_SetHead_sel)
  qed
  let ?c = "case headChoice n s of None \<Rightarrow> genesisBlock s | Some b \<Rightarrow> b"
  have hb: "headBlockHash ?R = BlockHash ?c"
    by (simp add: SetHeadRewind_sel cong: option.case_cong)
  from g have "headers ?R (BlockHash ?c) = Some (b_header cur)"
    unfolding hb by (rule GetBlock_header)
  then have hs: "headers s (BlockHash ?c) = Some (b_header cur)"
    by (simp add: SetHeadRewind_sel hc_SetHead_sel split: if_splits)
  with wf have same: "BlockHash cur = BlockHash ?c" by (simp add: consistent_def BlockHash_def)
  have num: "NumberU64 cur \<le> n"
  proof (cases "headChoice n s")
    case None
    with hs wf show ?thesis by (simp add: consistent_def NumberU64_def)
  next
    case (Some b)
    with hs have "headers s (BlockHash b) = Some (b_header cur)" by simp
    from headChoice_bound [OF wf Some this] show ?thesis by (simp add: NumberU64_def)
  qed
  have st': "stateNew s' (BlockRoot cur)" using st by (simp add: stateNew_def s' t)
  have hd': "headBlockHash s' = BlockHash cur" by (simp add: s' t hb same)
  have fb: "headChoice n s = None \<longrightarrow> BlockHash cur = BlockHash (genesisBlock s)"
    using same by simp
  from cb have "currentBlock s' = Some cur" by (simp add: s')
  with num st' hd' fb c1 c2 show ?thesis by simp
qed

text \<open>
  On the three-block chain SetHead(1) returns: height 2 is no longer canonical, block 19
  is gone from the store, and the head block is the block of height 1.
\<close>

theorem SetHead_rewinds_witness:
  "\<exists>s'. SetHead 4 quietEnv 1 longChain = Return (None, s') \<and> consistent longChain
        \<and> canonical s' 2 = None \<and> headers s' 19 = None \<and> tds s' 19 = None
        \<and> bodies s' 19 = None \<and> currentBlock s' = Some blkA1 \<and> NumberU64 blkA1 \<le> 1"
proof -
  let ?s' = "(loadHeads blkA1 (SetHeadRewind 1 (longChain\<lparr>mu := True\<rparr>)))
               \<lparr>stateCache := Some 11, mu := False\<rparr>"
  note r = SetHead_rewinds [OF longChain_rewound longChain_consistent]
  have cb: "currentBlock ?s' = Some blkA1" by (simp add: loadHeads_tables)
  from r have "canonical ?s' 2 = None" by simp
  moreover have "(1::64 word) < 2" "canonical longChain 2 = Some 19"
    by (simp_all add: longChain_sel)
  with r have "headers ?s' 19 = None \<and> tds ?s' 19 = None \<and> bodies ?s' 19 = None"
    by blast
  moreover from r cb have "NumberU64 blkA1 \<le> 1" by simp
  ultimately show ?thesis using longChain_rewound longChain_consistent cb by blast
qed

section \<open>InsertReceiptChain: the derived fields\<close>

text \<open>
  Claim C8. When InsertReceiptChain returns without error on blocks with distinct
  hashes and is not interrupted, then for every index \<open>i\<close> of both lists whose
  block was not fully known, the receipts stored for that block are derived from the
  given ones as the claim says. And the body of the worker for such a block, with a
  known header and no more receipts than transactions, does return with the derived
  receipts written.
\<close>

theorem InsertReceiptChain_derives_fields:
  "(InsertReceiptChain env s blocks receiptss = Return (n, None, s')
      \<and> \<not> procInterrupt s \<and> distinct (map BlockHash blocks)
      \<and> i < length blocks \<and> i < length receiptss \<and> \<not> HasBlock s (BlockHash (blocks ! i))
    \<longrightarrow> (\<exists>rs'. blockReceipts s' (BlockHash (blocks ! i)) = Some rs'
               \<and> derivedFrom env (blocks ! i) (receiptss ! i) rs'))
   \<and> (\<not> procInterrupt s \<and> HasHeader s (BlockHash b) \<and> \<not> HasBlock s (BlockHash b)
        \<and> length rs \<le> length (b_transactions b)
    \<longrightarrow> (\<exists>s1 rs'. receiptTask env s b rs = Return (TaskProcessed s1)
           \<and> blockReceipts s1 (BlockHash b) = Some rs' \<and> derivedFrom env b rs rs'))"
proof (intro conjI impI)
  assume a: "InsertReceiptChain env s blocks receiptss = Return (n, None, s')
      \<and> \<not> procInterrupt s \<and> distinct (map BlockHash blocks)
      \<and> i < length blocks \<and> i < length receiptss \<and> \<not> HasBlock s (BlockHash (blocks ! i))"
  then obtain s1 st failed where
    run: "runTasks env 0 (zip blocks receiptss) s \<lparr>rs_processed = 0, rs_ignored = 0\<rparr>
            = Return (s1, st, failed)"
    and k: "(case failed of
            Some (i, e) \<Rightarrow> Return (i, Some e, s1)
          | None \<Rightarrow>
              if procInterrupt s1 then Return (0, None, s1)
              else if mu s1 then Blocked
              else if min (length blocks) (length receiptss) = 0 then Panic
              else andThen
                     (updateFastHead
                        (blocks ! (min (length blocks) (length receiptss) - 1)) s1)
                     (\<lambda>s2. Return (0, None, s2))) = Return (n, None, s')"
    by (auto simp: InsertReceiptChain_def andThen_Return)
  from k have f: "failed = None" by (cases failed) auto
  have d: "distinct (map (BlockHash \<circ> fst) (zip blocks receiptss))"
  proof -
    have "map (BlockHash \<circ> fst) (zip blocks receiptss)
            = take (length receiptss) (map BlockHash blocks)"
      by (simp add: map_fst_zip_take take_map min_def flip: map_map)
    with a show ?thesis by simp
  qed
  have m: "(blocks ! i, receiptss ! i) \<in> set (zip blocks receiptss)"
    using a by (auto simp: set_zip)
  from runTasks_receipts [OF run [unfolded f] _ d m] a
  obtain rs' where dr: "deriveReceipts env (blocks ! i) 0 0 0 (receiptss ! i) = Return rs'"
    and br: "blockReceipts s1 (BlockHash (blocks ! i)) = Some rs'"
    by auto
  have "blockReceipts s' = blockReceipts s1"
    using k f by (auto simp: andThen_Return split: if_splits dest: updateFastHead_keeps_receipts)
  with br deriveReceipts_derivedFrom [OF dr]
  show "\<exists>rs'. blockReceipts s' (BlockHash (blocks ! i)) = Some rs'
               \<and> derivedFrom env (blocks ! i) (receiptss ! i) rs'"
    by auto
next
  assume "\<not> procInterrupt s \<and> HasHeader s (BlockHash b) \<and> \<not> HasBlock s (BlockHash b)
        \<and> length rs \<le> length (b_transactions b)"
  then show "\<exists>s1 rs'. receiptTask env s b rs = Return (TaskProcessed s1)
           \<and> blockReceipts s1 (BlockHash b) = Some rs' \<and> derivedFrom env b rs rs'"
    by (intro receiptTask_returns) auto
qed


text \<open>
  The theorem at the fast-sync store: the creation gets the address made from the
  sender and nonce 5 and its whole cumulative gas, the call keeps its address and gets
  50000 - 21000, and the three logs are numbered 0, 1, 2.
\<close>

theorem InsertReceiptChain_derives_fields_witness:
  "\<not> procInterrupt fastSync \<and> HasHeader fastSync (BlockHash blkR)
   \<and> \<not> HasBlock fastSync (BlockHash blkR)
   \<and> length receiptsR \<le> length (b_transactions blkR)
   \<and> (\<exists>s'. InsertReceiptChain quietEnv fastSync [blkR] [receiptsR] = Return (0, None, s')
          \<and> blockReceipts s' (BlockHash blkR) = Some derivedR
          \<and> currentFastBlock s' = Some blkR)
   \<and> derivedFrom quietEnv blkR receiptsR derivedR"
proof -
  have p: "\<not> procInterrupt fastSync" "HasHeader fastSync (BlockHash blkR)"
    "\<not> HasBlock fastSync (BlockHash blkR)" "length receiptsR \<le> length (b_transactions blkR)"
    by (simp_all add: fastSync_sel forkChain_sel blkR_fields lookup_defs receiptsR_def)
  from InsertReceiptChain_derives_fields [where s = fastSync and b = blkR and rs = receiptsR
      and env = quietEnv] p
  obtain s1 rs' where t: "receiptTask quietEnv fastSync blkR receiptsR = Return (TaskProcessed s1)"
    and br: "blockReceipts s1 (BlockHash blkR) = Some rs'"
    and df: "derivedFrom quietEnv blkR receiptsR rs'"
    by blast
  from t have s1: "s1 = WriteReceipts derivedR
                      (WriteTransactions blkR
                        (WriteMipmapBloom (NumberU64 blkR) derivedR
                          (WriteBlockReceipts (BlockHash blkR) derivedR
                            (WriteBody (BlockHash blkR) (BlockBody blkR) fastSync))))"
    using p by (simp add: receiptTask_def deriveReceipts_blkR)
  have rs': "rs' = derivedR" using br by (simp add: s1 task_writes)
  have sel: "currentFastBlock s1 = Some blkA1" "tds s1 = tds fastSync" "mu s1 = False"
    "procInterrupt s1 = False" "blockReceipts s1 20 = Some derivedR"
    by (simp_all add: s1 write_defs fastSync_sel blkR_fields)
  have u: "updateFastHead blkR s1
            = Return (WriteHeadFastBlockHash 20 (s1\<lparr>currentFastBlock := Some blkR\<rparr>))"
    by (simp add: updateFastHead_def sel GetTd_def fastSync_sel forkChain_sel blkR_fields
        blk_defs)
  have "InsertReceiptChain quietEnv fastSync [blkR] [receiptsR]
          = Return (0, None, WriteHeadFastBlockHash 20 (s1\<lparr>currentFastBlock := Some blkR\<rparr>))"
    using t u by (simp add: InsertReceiptChain_def sel)
  moreover have "blockReceipts (WriteHeadFastBlockHash 20 (s1\<lparr>currentFastBlock := Some blkR\<rparr>))
                   (BlockHash blkR) = Some derivedR"
    "currentFastBlock (WriteHeadFastBlockHash 20 (s1\<lparr>currentFastBlock := Some blkR\<rparr>)) = Some blkR"
    by (simp_all add: WriteHeadFastBlockHash_def sel blkR_fields)
  ultimately show ?thesis using p df rs' by blast
qed


section \<open>Rollback\<close>

text \<open>
  Claim C9. Rollback handles the last hash of the list first and the rest afterwards in
  the same way. For one hash: the head header moves to its parent header exactly when
  its hash is the given one, and the header pointer in the store follows; likewise the
  fast-sync head and the head block move to their parent blocks exactly when their
  hashes are the given one, and the moved pointer is persisted; a pointer whose hash
  differs stays, with its stored hash. The hash is handled without a panic when the
  parent of every pointer that matches is in the store. Whenever Rollback returns, the
  headers, bodies, total difficulties, canonical index, receipts, lookups and bloom
  entries of the store are the ones it started with.
\<close>

theorem Rollback_unelects:
  "(Rollback s chain = Return s' \<longrightarrow> sameStore s' s)
   \<and> (\<not> mu s \<longrightarrow>
        Rollback s (chain @ [h]) = andThen (rollbackOne h s) (\<lambda>s1. Rollback s1 chain))
   \<and> (rollbackOne h s = Return s1 \<longrightarrow>
        (if h_hash (hc_currentHeader s) = h
         then GetHeader s (h_parentHash (hc_currentHeader s)) = Some (hc_currentHeader s1)
              \<and> headHeaderHash s1 = h_hash (hc_currentHeader s1)
         else hc_currentHeader s1 = hc_currentHeader s \<and> headHeaderHash s1 = headHeaderHash s)
        \<and> (\<exists>fb. currentFastBlock s = Some fb
              \<and> (if BlockHash fb = h
                  then \<exists>p. GetBlock s (ParentHash fb) = Some p \<and> currentFastBlock s1 = Some p
                           \<and> headFastBlockHash s1 = BlockHash p
                  else currentFastBlock s1 = Some fb
                       \<and> headFastBlockHash s1 = headFastBlockHash s))
        \<and> (\<exists>cb. currentBlock s = Some cb
              \<and> (if BlockHash cb = h
                  then \<exists>p. GetBlock s (ParentHash cb) = Some p \<and> currentBlock s1 = Some p
                           \<and> headBlockHash s1 = BlockHash p
                  else currentBlock s1 = Some cb \<and> headBlockHash s1 = headBlockHash s)))
   \<and> ((h_hash (hc_currentHeader s) = h \<longrightarrow>
           GetHeader s (h_parentHash (hc_currentHeader s)) \<noteq> None)
        \<and> (\<exists>fb. currentFastBlock s = Some fb
               \<and> (BlockHash fb = h \<longrightarrow> GetBlock s (ParentHash fb) \<noteq> None))
        \<and> (\<exists>cb. currentBlock s = Some cb
               \<and> (BlockHash cb = h \<longrightarrow> GetBlock s (ParentHash cb) \<noteq> None))
        \<longrightarrow> (\<exists>s2. rollbackOne h s = Return s2))"
proof (intro conjI impI)
  assume "Rollback s chain = Return s'"
  then show "sameStore s' s"
    by (auto simp: Rollback_def split: if_splits dest: rollbackLoop_sameStore)
next
  assume "\<not> mu s"
  then show "Rollback s (chain @ [h]) = andThen (rollbackOne h s) (\<lambda>s1. Rollback s1 chain)"
    by (rule Rollback_snoc)
next
  assume r: "rollbackOne h s = Return s1"
  from rollbackOne_pointers(1) [OF r]
  show "if h_hash (hc_currentHeader s) = h
         then GetHeader s (h_parentHash (hc_currentHeader s)) = Some (hc_currentHeader s1)
              \<and> headHeaderHash s1 = h_hash (hc_currentHeader s1)
         else hc_currentHeader s1 = hc_currentHeader s \<and> headHeaderHash s1 = headHeaderHash s" .
  from rollbackOne_pointers(2) [OF r]
  show "\<exists>fb. currentFastBlock s = Some fb
              \<and> (if BlockHash fb = h
                  then \<exists>p. GetBlock s (ParentHash fb) = Some p \<and> currentFastBlock s1 = Some p
                           \<and> headFastBlockHash s1 = BlockHash p
                  else currentFastBlock s1 = Some fb
                       \<and> headFastBlockHash s1 = headFastBlockHash s)" .
  from rollbackOne_pointers(3) [OF r]
  show "\<exists>cb. currentBlock s = Some cb
              \<and> (if BlockHash cb = h
                  then \<exists>p. GetBlock s (ParentHash cb) = Some p \<and> currentBlock s1 = Some p
                           \<and> headBlockHash s1 = BlockHash p
                  else currentBlock s1 = Some cb \<and> headBlockHash s1 = headBlockHash s)" .
next
  assume a: "(h_hash (hc_currentHeader s) = h \<longrightarrow>
           GetHeader s (h_parentHash (hc_currentHeader s)) \<noteq> None)
        \<and> (\<exists>fb. currentFastBlock s = Some fb
               \<and> (BlockHash fb = h \<longrightarrow> GetBlock s (ParentHash fb) \<noteq> None))
        \<and> (\<exists>cb. currentBlock s = Some cb
               \<and> (BlockHash cb = h \<longrightarrow> GetBlock s (ParentHash cb) \<noteq> None))"
  then obtain fb cb where "currentFastBlock s = Some fb"
      "BlockHash fb = h \<longrightarrow> GetBlock s (ParentHash fb) \<noteq> None"
      "currentBlock s = Some cb" "BlockHash cb = h \<longrightarrow> GetBlock s (ParentHash cb) \<noteq> None"
    by auto
  with a show "\<exists>s2. rollbackOne h s = Return s2"
    by (intro rollbackOne_returns) auto
qed

text \<open>
  The theorem at the concrete chain: rolling back \<open>[11, 10]\<close> handles the head's
  hash 11 last and leaves all three pointers at genesis with the store as it was;
  \<open>[10, 11]\<close> handles 11 first and then meets genesis, whose parent is not stored.
\<close>

theorem Rollback_unelects_witness:
  "\<not> mu forkChain
   \<and> Rollback forkChain [11, 10] = Return rolledBack
   \<and> Rollback forkChain [10, 11] = Panic
   \<and> sameStore rolledBack forkChain
   \<and> currentBlock rolledBack = Some blkG \<and> headBlockHash rolledBack = 10
   \<and> GetBlock forkChain (ParentHash blkA1) = Some blkG"
proof -
  have m: "\<not> mu forkChain" "\<not> mu rolledBack" by (simp_all add: forkChain_def rolledBack_def)
  have e: "Rollback forkChain [] = Return forkChain" "Rollback rolledBack [] = Return rolledBack"
    using m by (simp_all add: Rollback_def)
  note t = Rollback_unelects [where s = forkChain and chain = "[]" and h = 11]
  note u = Rollback_unelects [where s = forkChain and chain = "[11]" and h = 10]
  note v = Rollback_unelects [where s = forkChain and chain = "[10]" and h = 11]
  note w = Rollback_unelects [where s = rolledBack and chain = "[]" and h = 10]
  have a: "Rollback forkChain [11] = Return rolledBack"
    using t m e by (simp add: rollbackOne_forkChain)
  have b: "Rollback forkChain [11, 10] = Return rolledBack"
    using u m a by (simp add: rollbackOne_forkChain)
  have c: "Rollback rolledBack [10] = Panic"
    using w m by (simp add: rollbackOne_forkChain)
  have d: "Rollback forkChain [10, 11] = Panic"
    using v m c by (simp add: rollbackOne_forkChain)
  have s: "sameStore rolledBack forkChain"
    using Rollback_unelects [where s = forkChain and chain = "[11, 10]" and s' = rolledBack] b
    by simp
  show ?thesis
    using m b d s forkChain_blocks by (simp add: rolledBack_def blk_defs)
qed


end
